theory Spec2Isabelle
  imports Main
begin

section \<open>Values, signals, effects\<close>

text \<open>
  JavaScript values as far as the engine looks at them: the engine only ever compares
  values with \<open>===\<close>, so a value is a primitive or a reference to an object (objects are
  equal only when they are the same object).
\<close>

datatype val = Undefined | Null | Num int | Str string | Obj nat

text \<open>A signal object is either a plain \<open>Signal\<close> or a \<open>ComputedSignal\<close>.\<close>

datatype sref = Cell nat | Comp nat

text \<open>
  Subscriber callbacks. \<open>EffCb k e\<close> is the closure that \<open>Effect.track\<close> of effect \<open>e\<close>
  creates (\<open>k\<close> is the identity of the closure: every call of \<open>track\<close> creates a new one).
  \<open>Obs n\<close> is a callback registered from outside through \<open>subscribe\<close>; it records the
  arguments it is called with.
\<close>

datatype callback = EffCb nat nat | Obs nat

text \<open>Getter functions of computed signals: they read cells and branch on what they read.\<close>

datatype expr = Lit val | Get nat | Cond expr expr expr

text \<open>
  Effect bodies: straight-line programs over the cells, with a conditional on a cell that is
  read, a read of a computed signal, a call of \<open>stop\<close> on an effect, and \<open>Throw\<close>
  (the body throws; the error boundary around the run catches it).
\<close>

datatype body =
    Done
  | Throw
  | Read nat body
  | ReadComp nat body
  | Write nat val body
  | Stop nat body
  | IfEq nat val body body

datatype fnbody = Body body | ComputedFn nat

text \<open>
  The change events that a wrapped array writes into its change cell:
  \<open>{type, method, args, oldLength, newLength}\<close> after a mutating method,
  \<open>{type: 'update', method: 'set', index, oldValue, newValue}\<close> after an index assignment
  (the \<open>timestamp\<close> field is left out). Each event is a new object.
\<close>

datatype change_event =
    MethodEvent string string "val list" nat nat
  | SetEvent nat val val

record signal =
  sval :: val
  subscribers :: "callback list"

record computed = signal +
  getter :: expr
  ceffect :: "nat option"
  dirty :: bool

text \<open>
  An \<open>Effect\<close> object. \<open>run_overridden\<close> is \<open>Some k\<close> once the computed signal \<open>k\<close> has
  replaced the effect's \<open>run\<close>; \<open>last_reads\<close> lists the signals whose \<open>value\<close> getter was
  called while this effect was the current one, since its most recent run began.
\<close>

record effect =
  fn :: fnbody
  dependencies :: "sref list"
  cleanups :: "(sref \<times> callback) list"
  active :: bool
  scheduled :: bool
  run_overridden :: "nat option"
  last_reads :: "sref list"

text \<open>
  The whole engine: the signal and effect objects with the next unused reference of each
  kind and of the subscriber closures, the batch scheduler
  (\<open>pendingEffects\<close>, \<open>isScheduled\<close>, \<open>isFlushing\<close>, and the number of
  \<open>requestAnimationFrame\<close> callbacks it has queued), the \<open>EffectTracker\<close>
  (\<open>current\<close>, \<open>stack\<close>). \<open>invoked\<close> lists the effects whose function was called, in
  order; \<open>reads\<close> lists the signals whose \<open>value\<close> getter was called, in order;
  \<open>obs_log\<close> lists the calls of the outside subscribers with their two arguments;
  \<open>caught\<close> counts the errors the error boundary caught; \<open>events\<close> holds the change-event
  objects allocated so far, \<open>Obj n\<close> referring to \<open>events n\<close>.
\<close>

record state =
  cells :: "nat \<Rightarrow> signal"
  comps :: "nat \<Rightarrow> computed"
  effs :: "nat \<Rightarrow> effect"
  next_id :: nat
  next_comp :: nat
  next_eff :: nat
  next_cb :: nat
  pendingEffects :: "nat list"
  isScheduled :: bool
  isFlushing :: bool
  frames :: nat
  current :: "nat option"
  stack :: "nat option list"
  invoked :: "nat list"
  reads :: "sref list"
  obs_log :: "(nat \<times> val \<times> val) list"
  caught :: nat
  next_obj :: nat
  events :: "nat \<Rightarrow> change_event option"

definition new_signal :: "val \<Rightarrow> signal" where
  "new_signal v = \<lparr>sval = v, subscribers = []\<rparr>"

definition new_effect :: "fnbody \<Rightarrow> effect" where
  "new_effect f = \<lparr>fn = f, dependencies = [], cleanups = [], active = True,
     scheduled = False, run_overridden = None, last_reads = []\<rparr>"

definition init :: state where
  "init = \<lparr>cells = (\<lambda>_. new_signal Undefined),
     comps = (\<lambda>_. \<lparr>sval = Undefined, subscribers = [], getter = Lit Undefined,
        ceffect = None, dirty = True\<rparr>),
     effs = (\<lambda>_. (new_effect (Body Done))\<lparr>active := False\<rparr>),
     next_id = 0, next_comp = 0, next_eff = 0, next_cb = 0,
     pendingEffects = [], isScheduled = False, isFlushing = False, frames = 0,
     current = None, stack = [], invoked = [], reads = [], obs_log = [], caught = 0,
     next_obj = 0, events = (\<lambda>_. None)\<rparr>"

subsection \<open>Signal: subscribe, notify\<close>

fun subs :: "state \<Rightarrow> sref \<Rightarrow> callback list" where
  "subs s (Cell x) = subscribers (cells s x)"
| "subs s (Comp k) = subscribers (comps s k)"

fun set_subs :: "sref \<Rightarrow> callback list \<Rightarrow> state \<Rightarrow> state" where
  "set_subs (Cell x) cs s = s\<lparr>cells := (cells s)(x := (cells s x)\<lparr>subscribers := cs\<rparr>)\<rparr>"
| "set_subs (Comp k) cs s = s\<lparr>comps := (comps s)(k := (comps s k)\<lparr>subscribers := cs\<rparr>)\<rparr>"

text \<open>\<open>subscribe\<close> adds the callback to the set; the closure it returns deletes it again.\<close>

definition Signal_subscribe :: "sref \<Rightarrow> callback \<Rightarrow> state \<Rightarrow> state" where
  "Signal_subscribe r cb s =
     (if cb \<in> set (subs s r) then s else set_subs r (subs s r @ [cb]) s)"

definition unsubscribe :: "sref \<times> callback \<Rightarrow> state \<Rightarrow> state" where
  "unsubscribe u s = set_subs (fst u) (removeAll (snd u) (subs s (fst u))) s"

subsection \<open>BatchScheduler.schedule\<close>

definition schedule :: "nat \<Rightarrow> state \<Rightarrow> state" where
  "schedule e s =
     (let s1 = s\<lparr>pendingEffects :=
                 (if e \<in> set (pendingEffects s) then pendingEffects s
                  else pendingEffects s @ [e])\<rparr>
      in if \<not> isScheduled s1 \<and> \<not> isFlushing s1
         then s1\<lparr>isScheduled := True, frames := frames s1 + 1\<rparr>
         else s1)"

text \<open>Calling a subscriber with \<open>(newValue, oldValue)\<close>.\<close>

fun call_cb :: "val \<Rightarrow> val \<Rightarrow> callback \<Rightarrow> state \<Rightarrow> state" where
  "call_cb nv ov (EffCb k e) s =
     (if active (effs s e) \<and> \<not> scheduled (effs s e)
      then schedule e (s\<lparr>effs := (effs s)(e := (effs s e)\<lparr>scheduled := True\<rparr>)\<rparr>)
      else s)"
| "call_cb nv ov (Obs n) s = s\<lparr>obs_log := obs_log s @ [(n, nv, ov)]\<rparr>"

text \<open>\<open>_notify\<close> iterates over a snapshot of the subscribers.\<close>

definition Signal_notify :: "sref \<Rightarrow> val \<Rightarrow> val \<Rightarrow> state \<Rightarrow> state" where
  "Signal_notify r nv ov s = fold (call_cb nv ov) (subs s r) s"

subsection \<open>Effect.track, Signal.value\<close>

definition Effect_track :: "nat \<Rightarrow> sref \<Rightarrow> state \<Rightarrow> state" where
  "Effect_track e r s =
     (if r \<in> set (dependencies (effs s e)) then s
      else
        let s1 = s\<lparr>effs := (effs s)(e := (effs s e)\<lparr>dependencies := dependencies (effs s e) @ [r]\<rparr>)\<rparr>;
            cb = EffCb (next_cb s1) e;
            s2 = Signal_subscribe r cb (s1\<lparr>next_cb := next_cb s1 + 1\<rparr>)
        in s2\<lparr>effs := (effs s2)(e := (effs s2 e)\<lparr>cleanups := cleanups (effs s2 e) @ [(r, cb)]\<rparr>)\<rparr>)"

text \<open>
  The part that the two \<open>value\<close> getters share:
  \<open>if (EffectTracker.current) EffectTracker.current.track(this)\<close>; the read is noted.
\<close>

definition track_read :: "sref \<Rightarrow> state \<Rightarrow> state" where
  "track_read r s =
     (let s1 = s\<lparr>reads := reads s @ [r]\<rparr>
      in case current s1 of
           None \<Rightarrow> s1
         | Some e \<Rightarrow>
             Effect_track e r
               (s1\<lparr>effs := (effs s1)(e := (effs s1 e)\<lparr>last_reads := last_reads (effs s1 e) @ [r]\<rparr>)\<rparr>))"

definition Signal_get :: "nat \<Rightarrow> state \<Rightarrow> val \<times> state" where
  "Signal_get x s = (let s1 = track_read (Cell x) s in (sval (cells s1 x), s1))"

definition Signal_set :: "nat \<Rightarrow> val \<Rightarrow> state \<Rightarrow> state" where
  "Signal_set x v s =
     (if sval (cells s x) = v then s
      else
        let ov = sval (cells s x);
            s1 = s\<lparr>cells := (cells s)(x := (cells s x)\<lparr>sval := v\<rparr>)\<rparr>
        in Signal_notify (Cell x) v ov s1)"

subsection \<open>ComputedSignal\<close>

fun truthy :: "val \<Rightarrow> bool" where
  "truthy Undefined = False"
| "truthy Null = False"
| "truthy (Num n) = (n \<noteq> 0)"
| "truthy (Str t) = (t \<noteq> [])"
| "truthy (Obj a) = True"

fun eval_expr :: "expr \<Rightarrow> state \<Rightarrow> val \<times> state" where
  "eval_expr (Lit v) s = (v, s)"
| "eval_expr (Get x) s = Signal_get x s"
| "eval_expr (Cond c a b) s =
     (case eval_expr c s of (v, s1) \<Rightarrow> if truthy v then eval_expr a s1 else eval_expr b s1)"

text \<open>
  The code that both the function of the computed signal's effect and \<open>_recompute\<close>
  contain: call the getter, and if the value changed store it and notify with
  \<open>(newValue, this._value)\<close>, then clear \<open>dirty\<close>.
\<close>

definition compute_and_notify :: "nat \<Rightarrow> state \<Rightarrow> state" where
  "compute_and_notify k s =
     (case eval_expr (getter (comps s k)) s of (nv, s1) \<Rightarrow>
        let s3 = (if sval (comps s1 k) \<noteq> nv
                  then let s2 = s1\<lparr>comps := (comps s1)(k := (comps s1 k)\<lparr>sval := nv\<rparr>)\<rparr>
                       in Signal_notify (Comp k) nv (sval (comps s2 k)) s2
                  else s1)
        in s3\<lparr>comps := (comps s3)(k := (comps s3 k)\<lparr>dirty := False\<rparr>)\<rparr>)"

definition ComputedSignal_recompute :: "nat \<Rightarrow> state \<Rightarrow> state" where
  "ComputedSignal_recompute k s = compute_and_notify k s"

definition ComputedSignal_get :: "nat \<Rightarrow> state \<Rightarrow> val \<times> state" where
  "ComputedSignal_get k s =
     (let s1 = (if dirty (comps s k) then ComputedSignal_recompute k s else s);
          s2 = track_read (Comp k) s1
      in (sval (comps s2 k), s2))"

subsection \<open>Effect: cleanup, stop, run\<close>

definition Effect_cleanup :: "nat \<Rightarrow> state \<Rightarrow> state" where
  "Effect_cleanup e s =
     (let s1 = fold unsubscribe (cleanups (effs s e)) s
      in s1\<lparr>effs := (effs s1)(e := (effs s1 e)\<lparr>cleanups := []\<rparr>)\<rparr>)"

definition clear_dependencies :: "nat \<Rightarrow> state \<Rightarrow> state" where
  "clear_dependencies e s = s\<lparr>effs := (effs s)(e := (effs s e)\<lparr>dependencies := []\<rparr>)\<rparr>"

definition Effect_stop :: "nat \<Rightarrow> state \<Rightarrow> state" where
  "Effect_stop e s =
     clear_dependencies e
       (Effect_cleanup e (s\<lparr>effs := (effs s)(e := (effs s e)\<lparr>active := False\<rparr>)\<rparr>))"

fun exec_body :: "body \<Rightarrow> state \<Rightarrow> state" where
  "exec_body Done s = s"
| "exec_body Throw s = s\<lparr>caught := caught s + 1\<rparr>"
| "exec_body (Read x b) s = exec_body b (snd (Signal_get x s))"
| "exec_body (ReadComp k b) s = exec_body b (snd (ComputedSignal_get k s))"
| "exec_body (Write x v b) s = exec_body b (Signal_set x v s)"
| "exec_body (Stop e b) s = exec_body b (Effect_stop e s)"
| "exec_body (IfEq x v b1 b2) s =
     (case Signal_get x s of (w, s1) \<Rightarrow> if w = v then exec_body b1 s1 else exec_body b2 s1)"

text \<open>Calling \<open>this.fn\<close> of effect \<open>e\<close>.\<close>

definition call_fn :: "nat \<Rightarrow> state \<Rightarrow> state" where
  "call_fn e s =
     (let s1 = s\<lparr>invoked := invoked s @ [e]\<rparr>
      in case fn (effs s1 e) of
           Body b \<Rightarrow> exec_body b s1
         | ComputedFn k \<Rightarrow> compute_and_notify k s1)"

text \<open>
  \<open>EffectTracker.track\<close>: push the previous effect, make \<open>e\<close> current, call the function,
  and restore in the \<open>finally\<close> block.
\<close>

definition EffectTracker_track :: "nat \<Rightarrow> state \<Rightarrow> state" where
  "EffectTracker_track e s =
     (let previousEffect = current s;
          s1 = s\<lparr>stack := stack s @ [previousEffect], current := Some e\<rparr>;
          s2 = call_fn e s1
      in s2\<lparr>current := previousEffect, stack := butlast (stack s2)\<rparr>)"

text \<open>
  The state in which \<open>run\<close> calls the function: flag cleared, edges removed (and the
  list of the reads of the run empty).
\<close>

definition run_prepare :: "nat \<Rightarrow> state \<Rightarrow> state" where
  "run_prepare e s =
     clear_dependencies e
       (Effect_cleanup e
         (s\<lparr>effs := (effs s)(e := (effs s e)\<lparr>scheduled := False, last_reads := []\<rparr>)\<rparr>))"

definition Effect_run :: "nat \<Rightarrow> state \<Rightarrow> state" where
  "Effect_run e s =
     (if \<not> active (effs s e) then s else EffectTracker_track e (run_prepare e s))"

text \<open>
  \<open>effect.run()\<close> as a caller sees it: the effect of a computed signal has its \<open>run\<close>
  replaced by a function that only sets \<open>dirty\<close>.
\<close>

definition run_method :: "nat \<Rightarrow> state \<Rightarrow> state" where
  "run_method e s =
     (case run_overridden (effs s e) of
        None \<Rightarrow> Effect_run e s
      | Some k \<Rightarrow> s\<lparr>comps := (comps s)(k := (comps s k)\<lparr>dirty := True\<rparr>)\<rparr>)"

subsection \<open>BatchScheduler.flush\<close>

definition flush_step :: "nat \<Rightarrow> state \<Rightarrow> state" where
  "flush_step e s = (if active (effs s e) then run_method e s else s)"

definition flush :: "state \<Rightarrow> state" where
  "flush s =
     (if isFlushing s then s
      else
        let s1 = s\<lparr>isFlushing := True, isScheduled := False\<rparr>;
            effects = pendingEffects s1;
            s2 = s1\<lparr>pendingEffects := []\<rparr>;
            s3 = fold flush_step effects s2;
            s4 = s3\<lparr>isFlushing := False\<rparr>
        in if pendingEffects s4 \<noteq> [] \<and> \<not> isScheduled s4
           then s4\<lparr>isScheduled := True, frames := frames s4 + 1\<rparr>
           else s4)"

subsection \<open>Constructors\<close>


definition Effect_new :: "fnbody \<Rightarrow> state \<Rightarrow> nat \<times> state" where
  "Effect_new f s =
     (let e = next_eff s;
          s1 = s\<lparr>effs := (effs s)(e := new_effect f), next_eff := e + 1\<rparr>
      in (e, Effect_run e s1))"

definition ComputedSignal_new :: "expr \<Rightarrow> state \<Rightarrow> nat \<times> state" where
  "ComputedSignal_new g s =
     (let k = next_comp s;
          s1 = s\<lparr>comps := (comps s)(k := \<lparr>sval = Undefined, subscribers = [], getter = g,
                    ceffect = None, dirty = True\<rparr>), next_comp := k + 1\<rparr>
      in case Effect_new (ComputedFn k) s1 of (e, s2) \<Rightarrow>
           let s3 = s2\<lparr>comps := (comps s2)(k := (comps s2 k)\<lparr>ceffect := Some e\<rparr>)\<rparr>
           in (k, s3\<lparr>effs := (effs s3)(e := (effs s3 e)\<lparr>run_overridden := Some k\<rparr>)\<rparr>))"

subsection \<open>What a caller can do with the engine\<close>

text \<open>
  Writing a cell, \<open>flushSync\<close>, an animation frame (which runs one queued \<open>flush\<close>
  callback), stopping an effect, creating an effect or a computed signal, reading a
  computed signal.
\<close>

datatype op =
    OpWrite nat val
  | OpFlushSync
  | OpFrame
  | OpStop nat
  | OpNewEffect body
  | OpNewComputed expr
  | OpReadComputed nat

fun apply_op :: "op \<Rightarrow> state \<Rightarrow> state" where
  "apply_op (OpWrite x v) s = Signal_set x v s"
| "apply_op OpFlushSync s = flush s"
| "apply_op OpFrame s = (if frames s = 0 then s else flush (s\<lparr>frames := frames s - 1\<rparr>))"
| "apply_op (OpStop e) s = Effect_stop e s"
| "apply_op (OpNewEffect b) s = snd (Effect_new (Body b) s)"
| "apply_op (OpNewComputed g) s = snd (ComputedSignal_new g s)"
| "apply_op (OpReadComputed k) s = snd (ComputedSignal_get k s)"

text \<open>A sequence of writes, and the condition that each of them changes the value.\<close>

fun writes :: "(nat \<times> val) list \<Rightarrow> state \<Rightarrow> state" where
  "writes [] s = s"
| "writes ((x, v) # ws) s = writes ws (Signal_set x v s)"

fun all_change :: "(nat \<times> val) list \<Rightarrow> state \<Rightarrow> bool" where
  "all_change [] s = True"
| "all_change ((x, v) # ws) s = (sval (cells s x) \<noteq> v \<and> all_change ws (Signal_set x v s))"

text \<open>Whether a body contains a call of \<open>stop\<close> on effect \<open>C\<close>.\<close>

fun stops :: "nat \<Rightarrow> body \<Rightarrow> bool" where
  "stops C Done = False"
| "stops C Throw = False"
| "stops C (Read x b) = stops C b"
| "stops C (ReadComp k b) = stops C b"
| "stops C (Write x v b) = stops C b"
| "stops C (Stop e b) = (e = C \<or> stops C b)"
| "stops C (IfEq x v b1 b2) = (stops C b1 \<or> stops C b2)"

fun fn_stops :: "nat \<Rightarrow> fnbody \<Rightarrow> bool" where
  "fn_stops C (Body b) = stops C b"
| "fn_stops C (ComputedFn k) = False"

section \<open>Predicates used in the statements\<close>

definition sub_of :: "state \<Rightarrow> nat \<Rightarrow> sref \<Rightarrow> bool" where
  "sub_of s e r \<longleftrightarrow> (\<exists>k. EffCb k e \<in> set (subs s r))"

definition edges_ok :: "state \<Rightarrow> bool" where
  "edges_ok s \<longleftrightarrow>
     (\<forall>r k e. EffCb k e \<in> set (subs s r) \<longrightarrow> (r, EffCb k e) \<in> set (cleanups (effs s e))) \<and>
     (\<forall>e r. r \<in> set (dependencies (effs s e)) \<longrightarrow> (\<exists>k. EffCb k e \<in> set (subs s r))) \<and>
     (\<forall>e r c. (r, c) \<in> set (cleanups (effs s e)) \<longrightarrow> (\<exists>k. c = EffCb k e))"

definition same_graph :: "state \<Rightarrow> state \<Rightarrow> bool" where
  "same_graph s s' \<longleftrightarrow>
     (\<forall>r. subs s' r = subs s r) \<and>
     (\<forall>e. dependencies (effs s' e) = dependencies (effs s e) \<and>
          cleanups (effs s' e) = cleanups (effs s e) \<and>
          active (effs s' e) = active (effs s e) \<and>
          fn (effs s' e) = fn (effs s e) \<and>
          run_overridden (effs s' e) = run_overridden (effs s e)) \<and>
     current s' = current s \<and> stack s' = stack s \<and> reads s' = reads s \<and>
     invoked s' = invoked s \<and> next_eff s' = next_eff s \<and> next_comp s' = next_comp s \<and>
     isFlushing s' = isFlushing s \<and>
     (\<forall>x. sval (cells s' x) = sval (cells s x)) \<and>
     (\<forall>k. sval (comps s' k) = sval (comps s k) \<and> dirty (comps s' k) = dirty (comps s k) \<and>
          getter (comps s' k) = getter (comps s k))"

definition frame0 :: "state \<Rightarrow> state \<Rightarrow> bool" where
  "frame0 s s' \<longleftrightarrow>
     current s' = current s \<and> stack s' = stack s \<and>
     next_eff s' = next_eff s \<and> next_comp s' = next_comp s \<and> isFlushing s' = isFlushing s \<and>
     (\<forall>e. fn (effs s' e) = fn (effs s e) \<and>
          run_overridden (effs s' e) = run_overridden (effs s e) \<and>
          (active (effs s' e) \<longrightarrow> active (effs s e))) \<and>
     (\<forall>k. getter (comps s' k) = getter (comps s k))"

definition frame :: "state \<Rightarrow> state \<Rightarrow> bool" where
  "frame s s' \<longleftrightarrow> frame0 s s' \<and> invoked s' = invoked s"

definition gains :: "nat \<Rightarrow> state \<Rightarrow> state \<Rightarrow> sref list \<Rightarrow> bool" where
  "gains C s s' new \<longleftrightarrow>
     last_reads (effs s' C) = last_reads (effs s C) @ new \<and>
     (active (effs s' C) \<longrightarrow> (\<forall>r. sub_of s' C r \<longleftrightarrow> sub_of s C r \<or> r \<in> set new))"

definition trk :: "state \<Rightarrow> state \<Rightarrow> bool" where
  "trk s s' \<longleftrightarrow> frame s s' \<and>
     (edges_ok s \<longrightarrow> edges_ok s' \<and>
       (\<exists>new. reads s' = reads s @ new \<and>
          (\<forall>C. current s = Some C \<longrightarrow> gains C s s' new)))"

definition reads_since :: "state \<Rightarrow> state \<Rightarrow> sref list" where
  "reads_since s s' = drop (length (reads s)) (reads s')"

definition cb_of :: "callback list \<Rightarrow> nat \<Rightarrow> bool" where
  "cb_of cbs e \<longleftrightarrow> (\<exists>k. EffCb k e \<in> set cbs)"

definition stopped :: "nat \<Rightarrow> state \<Rightarrow> bool" where
  "stopped C s \<longleftrightarrow> \<not> active (effs s C) \<and> C < next_eff s"

definition calls :: "state \<Rightarrow> nat \<Rightarrow> nat" where
  "calls s C = count_list (invoked s) C"

text \<open>The outside subscribers among a list of callbacks.\<close>

fun observers :: "callback list \<Rightarrow> nat list" where
  "observers [] = []"
| "observers (EffCb k e # cbs) = observers cbs"
| "observers (Obs n # cbs) = n # observers cbs"

subsection \<open>Well-formed states\<close>

text \<open>
  A body refers only to computed signals that exist (\<open>n\<close> of them); a caller creates
  effects with such bodies and reads computed signals that exist.
\<close>

fun body_ok :: "nat \<Rightarrow> body \<Rightarrow> bool" where
  "body_ok n Done = True"
| "body_ok n Throw = True"
| "body_ok n (Read x b) = body_ok n b"
| "body_ok n (ReadComp k b) = (k < n \<and> body_ok n b)"
| "body_ok n (Write x v b) = body_ok n b"
| "body_ok n (Stop e b) = body_ok n b"
| "body_ok n (IfEq x v b1 b2) = (body_ok n b1 \<and> body_ok n b2)"

fun fn_ok :: "nat \<Rightarrow> fnbody \<Rightarrow> bool" where
  "fn_ok n (Body b) = body_ok n b"
| "fn_ok n (ComputedFn k) = True"

fun op_ok :: "state \<Rightarrow> op \<Rightarrow> bool" where
  "op_ok s (OpNewEffect b) = body_ok (next_comp s) b"
| "op_ok s (OpReadComputed k) = (k < next_comp s)"
| "op_ok s a = True"

fun ops_ok :: "op list \<Rightarrow> state \<Rightarrow> bool" where
  "ops_ok [] s = True"
| "ops_ok (a # as) s = (op_ok s a \<and> ops_ok as (apply_op a s))"

text \<open>
  The invariant of the engine: the edges are consistent, the pending set has no
  duplicates, and neither the tracker, the pending set nor any subscriber list refers to
  an effect or a computed signal that has not been created.
\<close>

definition wf_state :: "state \<Rightarrow> bool" where
  "wf_state s \<longleftrightarrow> edges_ok s \<and> distinct (pendingEffects s) \<and>
     (\<forall>e. current s = Some e \<longrightarrow> e < next_eff s) \<and>
     (\<forall>e. next_eff s \<le> e \<longrightarrow> dependencies (effs s e) = [] \<and> cleanups (effs s e) = []) \<and>
     (\<forall>e \<in> set (pendingEffects s). e < next_eff s) \<and>
     (\<forall>k. next_comp s \<le> k \<longrightarrow> subscribers (comps s k) = []) \<and>
     (\<forall>e. fn_ok (next_comp s) (fn (effs s e)))"

section \<open>Wrapped arrays\<close>

text \<open>
  A raw array together with the three cells that \<open>reactiveArray\<close> keeps for it in the
  signals map: \<open>__arrayChange\<close>, \<open>length\<close> and \<open>__version\<close>. The proxy's target is the raw
  array (a hole is \<open>Undefined\<close>).
\<close>

record rarray =
  target :: "val list"
  changeSignal :: nat
  lengthSignal :: nat
  versionSignal :: nat


text \<open>
  The seven intercepted methods with their arguments. \<open>Sort le\<close> sorts with a comparator,
  \<open>le a b\<close> standing for \<open>compare(a, b) \<le> 0\<close>; \<open>Splice start deleteCount items\<close> is called
  with at least the start index.
\<close>

datatype mutation =
    Push "val list"
  | Pop
  | Shift
  | Unshift "val list"
  | Splice int "int option" "val list"
  | Sort "val \<Rightarrow> val \<Rightarrow> bool"
  | Reverse

fun method_name :: "mutation \<Rightarrow> string" where
  "method_name (Push xs) = ''push''"
| "method_name Pop = ''pop''"
| "method_name Shift = ''shift''"
| "method_name (Unshift xs) = ''unshift''"
| "method_name (Splice i d xs) = ''splice''"
| "method_name (Sort le) = ''sort''"
| "method_name Reverse = ''reverse''"

text \<open>The table \<open>mutationMethods\<close>.\<close>

fun mutationMethods :: "mutation \<Rightarrow> string" where
  "mutationMethods (Push xs) = ''add''"
| "mutationMethods Pop = ''remove''"
| "mutationMethods Shift = ''remove''"
| "mutationMethods (Unshift xs) = ''add''"
| "mutationMethods (Splice i d xs) = ''splice''"
| "mutationMethods (Sort le) = ''reorder''"
| "mutationMethods Reverse = ''reorder''"

fun method_args :: "mutation \<Rightarrow> val list" where
  "method_args (Push xs) = xs"
| "method_args (Unshift xs) = xs"
| "method_args (Splice i d xs) =
     Num i # (case d of None \<Rightarrow> [] | Some n \<Rightarrow> Num n # xs)"
| "method_args m = []"

text \<open>\<open>Array.prototype\<close>: what each method leaves in the array.\<close>

fun insort_by :: "('a \<Rightarrow> 'a \<Rightarrow> bool) \<Rightarrow> 'a \<Rightarrow> 'a list \<Rightarrow> 'a list" where
  "insort_by le x [] = [x]"
| "insort_by le x (y # ys) = (if le x y then x # y # ys else y # insort_by le x ys)"

definition splice_start :: "int \<Rightarrow> nat \<Rightarrow> nat" where
  "splice_start i len = (if i < 0 then nat (max (int len + i) 0) else min (nat i) len)"

definition splice_count :: "int option \<Rightarrow> nat \<Rightarrow> nat \<Rightarrow> nat" where
  "splice_count d st len =
     (case d of None \<Rightarrow> len - st | Some n \<Rightarrow> min (nat (max n 0)) (len - st))"

fun Array_prototype :: "mutation \<Rightarrow> val list \<Rightarrow> val list" where
  "Array_prototype (Push xs) arr = arr @ xs"
| "Array_prototype Pop arr = butlast arr"
| "Array_prototype Shift arr = tl arr"
| "Array_prototype (Unshift xs) arr = xs @ arr"
| "Array_prototype (Splice i d xs) arr =
     (let st = splice_start i (length arr); n = splice_count d st (length arr)
      in take st arr @ xs @ drop (st + n) arr)"
| "Array_prototype (Sort le) arr = foldr (insort_by le) arr []"
| "Array_prototype Reverse arr = rev arr"

text \<open>
  \<open>versionSignal.value + 1\<close>. The version cell is created holding 0 and only this code
  writes it; for \<open>undefined\<close> the sum is \<open>NaN\<close>, for which \<open>Undefined\<close> stands here.
\<close>

fun plus_one :: "val \<Rightarrow> val" where
  "plus_one (Num n) = Num (n + 1)"
| "plus_one Null = Num 1"
| "plus_one (Str t) = Str (t @ ''1'')"
| "plus_one Undefined = Undefined"
| "plus_one (Obj a) = Str ''[object Object]1''"

text \<open>Writing a new change-event object into a cell.\<close>

definition emit :: "nat \<Rightarrow> change_event \<Rightarrow> state \<Rightarrow> state" where
  "emit c ev s =
     Signal_set c (Obj (next_obj s))
       (s\<lparr>events := (events s)(next_obj s \<mapsto> ev), next_obj := next_obj s + 1\<rparr>)"

text \<open>\<open>versionSignal.value = versionSignal.value + 1\<close>.\<close>

definition bump_version :: "rarray \<Rightarrow> state \<Rightarrow> state" where
  "bump_version a s =
     (case Signal_get (versionSignal a) s of (v, s1) \<Rightarrow> Signal_set (versionSignal a) (plus_one v) s1)"

text \<open>The function that the \<open>get\<close> trap returns for a mutating method, called.\<close>

definition array_call :: "mutation \<Rightarrow> rarray \<Rightarrow> state \<Rightarrow> rarray \<times> state" where
  "array_call m a s =
     (let oldLength = length (target a);
          a' = a\<lparr>target := Array_prototype m (target a)\<rparr>;
          s1 = Signal_set (lengthSignal a') (Num (int (length (target a')))) s;
          s2 = bump_version a' s1;
          s3 = emit (changeSignal a')
                 (MethodEvent (mutationMethods m) (method_name m) (method_args m)
                    oldLength (length (target a'))) s2
      in (a', s3))"





text \<open>The three cells of a wrapped array are three different signal objects.\<close>

definition cells_distinct :: "rarray \<Rightarrow> bool" where
  "cells_distinct a \<longleftrightarrow> distinct [changeSignal a, lengthSignal a, versionSignal a]"

section \<open>The keyed list reconciler\<close>

text \<open>
  A compiled key expression, called on the item context, returns a value or throws.
  \<open>IndexKey\<close> is the key expression \<open>$index\<close>.
\<close>

datatype outcome = Returns val | Throws

datatype 'd keyexpr = IndexKey | KeyExpr "'d \<Rightarrow> nat \<Rightarrow> outcome"

datatype warning = EvalWarning | KeyWarning

datatype error = TypeError | NotFoundError

record 'd ctx =
  ctx_item :: 'd
  ctx_index :: nat

text \<open>
  \<open>ExpressionEvaluator.evaluate\<close>: the whole evaluation is inside \<open>try\<close>; the \<open>catch\<close>
  block warns and returns \<open>undefined\<close>. The result is a sum so that a caller's \<open>catch\<close> has
  a branch, but \<open>evaluate\<close> never throws.
\<close>

definition evaluate :: "('d \<Rightarrow> nat \<Rightarrow> outcome) \<Rightarrow> 'd ctx \<Rightarrow> error + val \<times> warning list" where
  "evaluate f c =
     (case f (ctx_item c) (ctx_index c) of
        Returns v \<Rightarrow> Inr (v, [])
      | Throws \<Rightarrow> Inr (Undefined, [EvalWarning]))"

text \<open>\<open>LoopBinding._computeKey\<close>: the key and the warnings printed.\<close>

definition computeKey :: "'d keyexpr \<Rightarrow> 'd \<Rightarrow> 'd ctx \<Rightarrow> val \<times> warning list" where
  "computeKey ke d c =
     (case ke of
        IndexKey \<Rightarrow> (Num (int (ctx_index c)), [])
      | KeyExpr f \<Rightarrow>
          (case evaluate f c of
             Inr r \<Rightarrow> r
           | Inl e \<Rightarrow> (Num (int (ctx_index c)), [KeyWarning])))"

text \<open>
  An instance object; instances are referred to by reference, and the reference of an
  instance is also the identity of its rendered element.
\<close>

record 'd list_instance =
  i_element :: nat
  i_data :: 'd
  i_context :: "'d ctx"

text \<open>
  The loop binding with the host tree it renders into: \<open>children\<close> are the child nodes of
  the anchor's parent in order, \<open>cleaned\<close> the elements of the instances whose \<open>cleanup\<close>
  ran, \<open>created\<close> the elements that \<open>_createInstance\<close> made.
\<close>

record 'd loop =
  keyExpression :: "'d keyexpr"
  instances :: "nat option list"
  objects :: "nat \<Rightarrow> 'd list_instance option"
  anchor :: nat
  children :: "nat list"
  next_node :: nat
  cleaned :: "nat list"
  created :: "nat list"

text \<open>A JavaScript \<open>Map\<close>: \<open>set\<close> on a key that is present keeps its position.\<close>

fun map_set :: "'k \<Rightarrow> 'v \<Rightarrow> ('k \<times> 'v) list \<Rightarrow> ('k \<times> 'v) list" where
  "map_set k v [] = [(k, v)]"
| "map_set k v ((k', v') # m) = (if k' = k then (k, v) # m else (k', v') # map_set k v m)"

definition map_has :: "('k \<times> 'v) list \<Rightarrow> 'k \<Rightarrow> bool" where
  "map_has m k = (map_of m k \<noteq> None)"

text \<open>\<open>_buildKeyMap\<close>: a \<open>null\<close> entry among the instances makes \<open>instance.data\<close> throw.\<close>

fun buildKeyMap ::
  "'d keyexpr \<Rightarrow> (nat \<Rightarrow> 'd list_instance option) \<Rightarrow> nat option list \<Rightarrow> nat \<Rightarrow>
   (val \<times> nat \<times> nat) list \<Rightarrow> error + (val \<times> nat \<times> nat) list" where
  "buildKeyMap ke h [] i m = Inr m"
| "buildKeyMap ke h (None # rs) i m = Inl TypeError"
| "buildKeyMap ke h (Some r # rs) i m =
     (case h r of
        None \<Rightarrow> Inl TypeError
      | Some inst \<Rightarrow>
          buildKeyMap ke h rs (i + 1)
            (map_set (fst (computeKey ke (i_data inst) (i_context inst))) (r, i) m))"

definition createItemContext :: "'d \<Rightarrow> nat \<Rightarrow> 'd ctx" where
  "createItemContext d i = \<lparr>ctx_item = d, ctx_index = i\<rparr>"

fun buildDataKeyMap ::
  "'d keyexpr \<Rightarrow> 'd list \<Rightarrow> nat \<Rightarrow> (val \<times> 'd \<times> nat \<times> 'd ctx) list \<Rightarrow>
   (val \<times> 'd \<times> nat \<times> 'd ctx) list" where
  "buildDataKeyMap ke [] i m = m"
| "buildDataKeyMap ke (d # ds) i m =
     buildDataKeyMap ke ds (i + 1)
       (map_set (fst (computeKey ke d (createItemContext d i))) (d, i, createItemContext d i) m)"

text \<open>The operations that \<open>_planOperations\<close> returns.\<close>

record 'd update_op =
  u_key :: val
  u_instance :: nat
  u_newData :: 'd
  u_newIndex :: nat
  u_oldIndex :: nat
  u_newContext :: "'d ctx"

record 'd add_op =
  a_key :: val
  a_data :: 'd
  a_index :: nat
  a_context :: "'d ctx"

record 'd operations =
  toRemove :: "nat list"
  toUpdate :: "'d update_op list"
  toAdd :: "'d add_op list"
  finalInstances :: "nat option list"

definition plan_toRemove ::
  "(val \<times> nat \<times> nat) list \<Rightarrow> (val \<times> 'd \<times> nat \<times> 'd ctx) list \<Rightarrow> nat list" where
  "plan_toRemove oldByKey newByKey =
     map (\<lambda>(k, r, i). r) (filter (\<lambda>(k, r, i). \<not> map_has newByKey k) oldByKey)"

definition plan_toUpdate ::
  "(val \<times> nat \<times> nat) list \<Rightarrow> (val \<times> 'd \<times> nat \<times> 'd ctx) list \<Rightarrow> 'd update_op list" where
  "plan_toUpdate oldByKey newByKey =
     concat (map (\<lambda>(k, r, i).
        case map_of newByKey k of
          None \<Rightarrow> []
        | Some (d, j, c) \<Rightarrow>
            [\<lparr>u_key = k, u_instance = r, u_newData = d, u_newIndex = j, u_oldIndex = i,
              u_newContext = c\<rparr>]) oldByKey)"

definition plan_toAdd ::
  "(val \<times> nat \<times> nat) list \<Rightarrow> (val \<times> 'd \<times> nat \<times> 'd ctx) list \<Rightarrow> 'd add_op list" where
  "plan_toAdd oldByKey newByKey =
     map (\<lambda>(k, d, j, c). \<lparr>a_key = k, a_data = d, a_index = j, a_context = c\<rparr>)
       (filter (\<lambda>(k, d, j, c). \<not> map_has oldByKey k) newByKey)"

text \<open>
  The \<open>newData.map\<close> at the end of \<open>_planOperations\<close>: a reused instance object gets the
  new item and a new context assigned; an item whose key is new yields \<open>null\<close>.
\<close>

fun plan_final ::
  "'d keyexpr \<Rightarrow> (val \<times> nat \<times> nat) list \<Rightarrow> 'd list \<Rightarrow> nat \<Rightarrow>
   (nat \<Rightarrow> 'd list_instance option) \<Rightarrow> nat option list \<times> (nat \<Rightarrow> 'd list_instance option)" where
  "plan_final ke oldByKey [] i h = ([], h)"
| "plan_final ke oldByKey (d # ds) i h =
     (let c = createItemContext d i;
          k = fst (computeKey ke d c)
      in case map_of oldByKey k of
           Some (r, j) \<Rightarrow>
             (let h' = (case h r of None \<Rightarrow> h
                        | Some inst \<Rightarrow> h(r \<mapsto> inst\<lparr>i_data := d, i_context := c\<rparr>))
              in case plan_final ke oldByKey ds (i + 1) h' of (fs, h'') \<Rightarrow> (Some r # fs, h''))
         | None \<Rightarrow>
             (case plan_final ke oldByKey ds (i + 1) h of (fs, h'') \<Rightarrow> (None # fs, h'')))"

definition planOperations ::
  "'d keyexpr \<Rightarrow> (val \<times> nat \<times> nat) list \<Rightarrow> (val \<times> 'd \<times> nat \<times> 'd ctx) list \<Rightarrow> 'd list \<Rightarrow>
   (nat \<Rightarrow> 'd list_instance option) \<Rightarrow> 'd operations \<times> (nat \<Rightarrow> 'd list_instance option)" where
  "planOperations ke oldByKey newByKey newData h =
     (case plan_final ke oldByKey newData 0 h of (fs, h') \<Rightarrow>
        (\<lparr>toRemove = plan_toRemove oldByKey newByKey,
          toUpdate = plan_toUpdate oldByKey newByKey,
          toAdd = plan_toAdd oldByKey newByKey,
          finalInstances = fs\<rparr>, h'))"

subsection \<open>The host tree\<close>

text \<open>
  \<open>nextSibling\<close>, \<open>remove\<close> and \<open>insertBefore\<close> among the children of one parent. A node
  that is not among the children has no parent: \<open>parentNode\<close> is \<open>null\<close> and calling
  \<open>insertBefore\<close> on it throws a \<open>TypeError\<close>; a reference node that is no child makes
  \<open>insertBefore\<close> throw \<open>NotFoundError\<close>.
\<close>

fun nextSibling :: "nat \<Rightarrow> nat list \<Rightarrow> nat option" where
  "nextSibling n [] = None"
| "nextSibling n [x] = None"
| "nextSibling n (x # y # ys) = (if x = n then Some y else nextSibling n (y # ys))"

fun insert_at :: "nat \<Rightarrow> nat \<Rightarrow> nat list \<Rightarrow> nat list" where
  "insert_at n r [] = [n]"
| "insert_at n r (x # xs) = (if x = r then n # x # xs else x # insert_at n r xs)"

definition insertBefore :: "nat \<Rightarrow> nat option \<Rightarrow> nat list \<Rightarrow> error + nat list" where
  "insertBefore n ref cs =
     (case ref of
        None \<Rightarrow> Inr (removeAll n cs @ [n])
      | Some r \<Rightarrow>
          if r \<notin> set cs then Inl NotFoundError
          else if r = n then Inr cs
          else Inr (insert_at n r (removeAll n cs)))"

text \<open>
  \<open>_reorderDOM\<close>, from the node after the anchor on. The parent is reached through the
  anchor, so moving an element throws a \<open>TypeError\<close> when the anchor is detached.
\<close>

fun reorderDOM ::
  "(nat \<Rightarrow> 'd list_instance option) \<Rightarrow> nat \<Rightarrow> nat option list \<Rightarrow> nat option \<Rightarrow> nat list \<Rightarrow>
   error + nat list" where
  "reorderDOM h a [] cur cs = Inr cs"
| "reorderDOM h a (None # rs) cur cs = reorderDOM h a rs cur cs"
| "reorderDOM h a (Some r # rs) cur cs =
     (case h r of
        None \<Rightarrow> reorderDOM h a rs cur cs
      | Some inst \<Rightarrow>
          if Some (i_element inst) \<noteq> cur
          then (if a \<notin> set cs then Inl TypeError
                else case insertBefore (i_element inst) cur cs of
                  Inl e \<Rightarrow> Inl e
                | Inr cs' \<Rightarrow> reorderDOM h a rs (nextSibling (i_element inst) cs') cs')
          else reorderDOM h a rs (nextSibling (i_element inst) cs) cs)"

subsection \<open>Applying the operations\<close>

definition apply_remove :: "nat \<Rightarrow> 'd loop \<Rightarrow> error + 'd loop" where
  "apply_remove r l =
     (case objects l r of
        None \<Rightarrow> Inl TypeError
      | Some inst \<Rightarrow>
          Inr (l\<lparr>children := removeAll (i_element inst) (children l),
                 cleaned := cleaned l @ [i_element inst]\<rparr>))"

definition apply_update :: "'d update_op \<Rightarrow> 'd loop \<Rightarrow> error + 'd loop" where
  "apply_update op l =
     (case objects l (u_instance op) of
        None \<Rightarrow> Inl TypeError
      | Some inst \<Rightarrow>
          Inr (l\<lparr>objects := (objects l)(u_instance op \<mapsto> inst\<lparr>i_context := u_newContext op\<rparr>)\<rparr>))"

text \<open>
  One step of the \<open>toAdd\<close> loop, on the binding and the \<open>finalInstances\<close> array:
  \<open>_createInstance\<close> clones the template into a new element, which is inserted after the
  anchor (index 0) or after the element of the previous final instance if there is one.
\<close>

definition apply_add ::
  "'d add_op \<Rightarrow> 'd loop \<times> nat option list \<Rightarrow> error + 'd loop \<times> nat option list" where
  "apply_add op lf =
     (case lf of (l, fs) \<Rightarrow>
        let e = next_node l;
            l1 = l\<lparr>objects := (objects l)(e \<mapsto> \<lparr>i_element = e, i_data = a_data op, i_context = a_context op\<rparr>),
                   next_node := e + 1, created := created l @ [e]\<rparr>;
            ins =
              (if a_index op = 0
               then (if anchor l1 \<in> set (children l1)
                     then insertBefore e (nextSibling (anchor l1) (children l1)) (children l1)
                     else Inl TypeError)
               else (case (if a_index op - 1 < length fs then fs ! (a_index op - 1) else None) of
                       None \<Rightarrow> Inr (children l1)
                     | Some p \<Rightarrow>
                         (case objects l1 p of
                            None \<Rightarrow> Inr (children l1)
                          | Some prev \<Rightarrow>
                              if i_element prev \<in> set (children l1)
                              then insertBefore e (nextSibling (i_element prev) (children l1)) (children l1)
                              else Inl TypeError)))
        in case ins of
             Inl err \<Rightarrow> Inl err
           | Inr cs \<Rightarrow>
               Inr (l1\<lparr>children := cs\<rparr>,
                    if a_index op < length fs then fs[a_index op := Some e]
                    else fs @ replicate (a_index op - length fs) None @ [Some e]))"

fun each :: "('a \<Rightarrow> 's \<Rightarrow> error + 's) \<Rightarrow> 'a list \<Rightarrow> 's \<Rightarrow> error + 's" where
  "each f [] s = Inr s"
| "each f (x # xs) s = (case f x s of Inl e \<Rightarrow> Inl e | Inr s' \<Rightarrow> each f xs s')"

definition applyOperations :: "'d operations \<Rightarrow> 'd loop \<Rightarrow> error + 'd loop \<times> nat option list" where
  "applyOperations ops l =
     (case each apply_remove (toRemove ops) l of
        Inl e \<Rightarrow> Inl e
      | Inr l1 \<Rightarrow>
     (case each apply_update (toUpdate ops) l1 of
        Inl e \<Rightarrow> Inl e
      | Inr l2 \<Rightarrow>
     (case each apply_add (toAdd ops) (l2, finalInstances ops) of
        Inl e \<Rightarrow> Inl e
      | Inr (l3, fs) \<Rightarrow>
          (case reorderDOM (objects l3) (anchor l3) fs (nextSibling (anchor l3) (children l3))
                  (children l3) of
             Inl e \<Rightarrow> Inl e
           | Inr cs \<Rightarrow> Inr (l3\<lparr>children := cs\<rparr>, fs)))))"

text \<open>\<open>_reconcile\<close>.\<close>

definition reconcile :: "'d list \<Rightarrow> 'd loop \<Rightarrow> error + 'd loop" where
  "reconcile newData l =
     (case buildKeyMap (keyExpression l) (objects l) (instances l) 0 [] of
        Inl e \<Rightarrow> Inl e
      | Inr oldByKey \<Rightarrow>
          let newByKey = buildDataKeyMap (keyExpression l) newData 0 []
          in case planOperations (keyExpression l) oldByKey newByKey newData (objects l) of
               (ops, h) \<Rightarrow>
                 (case applyOperations ops (l\<lparr>objects := h\<rparr>) of
                    Inl e \<Rightarrow> Inl e
                  | Inr (l', fs) \<Rightarrow> Inr (l'\<lparr>instances := fs\<rparr>)))"

text \<open>A binding that has rendered nothing yet: the anchor is node 0 of the host tree.\<close>

definition new_loop :: "'d keyexpr \<Rightarrow> 'd loop" where
  "new_loop ke = \<lparr>keyExpression = ke, instances = [], objects = (\<lambda>_. None), anchor = 0,
     children = [0], next_node = 1, cleaned = [], created = []\<rparr>"

text \<open>The element rendered for the item with a given key, if any.\<close>

definition element_of_key :: "'d loop \<Rightarrow> val \<Rightarrow> nat option" where
  "element_of_key l k =
     (case buildKeyMap (keyExpression l) (objects l) (instances l) 0 [] of
        Inl e \<Rightarrow> None
      | Inr m \<Rightarrow> (case map_of m k of None \<Rightarrow> None | Some (r, i) \<Rightarrow>
          (case objects l r of None \<Rightarrow> None | Some inst \<Rightarrow> Some (i_element inst))))"

section \<open>The reactive wrapper\<close>

text \<open>
  Objects by reference: a plain object, an array, a function, or a proxy with its target.
  \<open>reactiveMap\<close>, \<open>rawMap\<close> and \<open>signalsMap\<close> are the three weak maps of \<open>ReactiveModel\<close>;
  the signals map of a target is a list of property names with their signals.
\<close>

datatype jsobject = PlainObject | ArrayObject nat | FunctionObject | ProxyObject nat

record wrap_state =
  heap :: "nat \<Rightarrow> jsobject option"
  next_ref :: nat
  reactiveMap :: "nat \<Rightarrow> nat option"
  rawMap :: "nat \<Rightarrow> nat option"
  signalsMap :: "nat \<Rightarrow> (string \<times> nat) list option"
  next_signal :: nat
  signal_init :: "nat \<Rightarrow> val option"

text \<open>
  \<open>Array.isArray\<close> and \<open>typeof x === 'object'\<close> look through proxies. A proxy is allocated
  after its target, so the reference of the target is the smaller one.
\<close>

function isArray :: "wrap_state \<Rightarrow> nat \<Rightarrow> bool" where
  "isArray w r =
     (case heap w r of
        Some (ArrayObject n) \<Rightarrow> True
      | Some (ProxyObject t) \<Rightarrow> (if t < r then isArray w t else False)
      | _ \<Rightarrow> False)"
  by pat_completeness auto
termination
  by (relation "measure (\<lambda>(w, r). r)") auto

function typeof_object :: "wrap_state \<Rightarrow> nat \<Rightarrow> bool" where
  "typeof_object w r =
     (case heap w r of
        Some FunctionObject \<Rightarrow> False
      | Some (ProxyObject t) \<Rightarrow> (if t < r then typeof_object w t else True)
      | _ \<Rightarrow> True)"
  by pat_completeness auto
termination
  by (relation "measure (\<lambda>(w, r). r)") auto

function array_length :: "wrap_state \<Rightarrow> nat \<Rightarrow> nat" where
  "array_length w r =
     (case heap w r of
        Some (ArrayObject n) \<Rightarrow> n
      | Some (ProxyObject t) \<Rightarrow> (if t < r then array_length w t else 0)
      | _ \<Rightarrow> 0)"
  by pat_completeness auto
termination
  by (relation "measure (\<lambda>(w, r). r)") auto

text \<open>\<open>ReactiveModel._getSignals\<close>.\<close>

definition getSignals :: "nat \<Rightarrow> wrap_state \<Rightarrow> wrap_state" where
  "getSignals t w =
     (case signalsMap w t of
        Some m \<Rightarrow> w
      | None \<Rightarrow> w\<lparr>signalsMap := (signalsMap w)(t \<mapsto> [])\<rparr>)"

text \<open>\<open>signals.get(name)\<close>, and \<open>new Signal(v); signals.set(name, signal)\<close> if there is none.\<close>

definition ensure_signal :: "nat \<Rightarrow> string \<Rightarrow> val \<Rightarrow> wrap_state \<Rightarrow> wrap_state" where
  "ensure_signal t name v w =
     (case signalsMap w t of
        None \<Rightarrow> w
      | Some m \<Rightarrow>
          (case map_of m name of
             Some sg \<Rightarrow> w
           | None \<Rightarrow>
               w\<lparr>signalsMap := (signalsMap w)(t \<mapsto> m @ [(name, next_signal w)]),
                  signal_init := (signal_init w)(next_signal w \<mapsto> v),
                  next_signal := next_signal w + 1\<rparr>))"

text \<open>\<open>new Proxy(target, handler)\<close> and the two entries in the weak maps.\<close>

definition new_proxy :: "nat \<Rightarrow> wrap_state \<Rightarrow> val \<times> wrap_state" where
  "new_proxy t w =
     (let p = next_ref w
      in (Obj p,
          w\<lparr>heap := (heap w)(p \<mapsto> ProxyObject t), next_ref := p + 1,
             reactiveMap := (reactiveMap w)(t \<mapsto> p),
             rawMap := (rawMap w)(p \<mapsto> t)\<rparr>))"

definition reactiveArray_wrap :: "nat \<Rightarrow> wrap_state \<Rightarrow> val \<times> wrap_state" where
  "reactiveArray_wrap arr w =
     new_proxy arr
       (ensure_signal arr ''__version'' (Num 0)
         (ensure_signal arr ''length'' (Num (int (array_length w arr)))
           (ensure_signal arr ''__arrayChange'' Null (getSignals arr w))))"

text \<open>\<open>reactive\<close>, in the order of its three tests.\<close>

definition reactive :: "val \<Rightarrow> wrap_state \<Rightarrow> val \<times> wrap_state" where
  "reactive tgt w =
     (case tgt of
        Obj r \<Rightarrow>
          if isArray w r then reactiveArray_wrap r w
          else (case reactiveMap w r of
                  Some p \<Rightarrow> (Obj p, w)
                | None \<Rightarrow>
                    if \<not> typeof_object w r then (tgt, w)
                    else new_proxy r (getSignals r w))
      | _ \<Rightarrow> (tgt, w))"

text \<open>A heap with a raw plain object (reference 0) and a raw array of length 2 (reference 1).\<close>

definition wrap_init :: wrap_state where
  "wrap_init = \<lparr>heap = (\<lambda>_. None)(0 \<mapsto> PlainObject, 1 \<mapsto> ArrayObject 2), next_ref = 2,
     reactiveMap = (\<lambda>_. None), rawMap = (\<lambda>_. None), signalsMap = (\<lambda>_. None),
     next_signal = 0, signal_init = (\<lambda>_. None)\<rparr>"

section \<open>Example programs\<close>

text \<open>
  An effect whose body reads cell 1 only while cell 0 holds 1, and cell 2 otherwise;
  it is created while cell 0 holds 1.
\<close>

definition ex_body :: body where
  "ex_body = IfEq 0 (Num 1) (Read 1 Done) (Read 2 Done)"

definition ex1 :: state where
  "ex1 = snd (Effect_new (Body ex_body) (Signal_set 0 (Num 1) init))"

text \<open>The same engine after cell 0 was set to 0, at the moment the flush runs the effect.\<close>

definition ex2 :: state where
  "ex2 = (Signal_set 0 (Num 0) ex1)\<lparr>pendingEffects := []\<rparr>"

text \<open>An effect that reads the three cells 0, 1 and 2.\<close>

definition ex_sum :: state where
  "ex_sum = snd (Effect_new (Body (Read 0 (Read 1 (Read 2 Done)))) init)"

text \<open>
  A computed signal over three cells: \<open>flag ? a : b\<close> with \<open>flag\<close> = cell 0, \<open>a\<close> = cell 1,
  \<open>b\<close> = cell 2, created while \<open>flag\<close> is 1, \<open>a\<close> is 10 and \<open>b\<close> is 20, with one outside
  subscriber.
\<close>

definition ex_getter :: expr where
  "ex_getter = Cond (Get 0) (Get 1) (Get 2)"

definition exc0 :: state where
  "exc0 = writes [(0, Num 1), (1, Num 10), (2, Num 20)] init"

definition exc1 :: state where
  "exc1 = Signal_subscribe (Comp 0) (Obs 7) (snd (ComputedSignal_new ex_getter exc0))"

text \<open>\<open>flag\<close> is set to 0, the flush runs, and the computed signal is read.\<close>

definition exc2 :: state where
  "exc2 = flush (Signal_set 0 (Num 0) exc1)"

definition exc3 :: state where
  "exc3 = snd (ComputedSignal_get 0 exc2)"

text \<open>Then \<open>b\<close> is set to 30, the flush runs, and the computed signal is read again.\<close>

definition exc4 :: state where
  "exc4 = flush (Signal_set 2 (Num 30) exc3)"



text \<open>
  Items \<open>{id: n, ...}\<close> as pairs of the id and the rest, keyed by \<open>item.id\<close>; and a key
  expression \<open>item.id\<close> over items that may be \<open>null\<close>, on which it throws.
\<close>

definition id_key :: "(int \<times> 'p) keyexpr" where
  "id_key = KeyExpr (\<lambda>d i. Returns (Num (fst d)))"

definition opt_id_key :: "int option keyexpr" where
  "opt_id_key = KeyExpr (\<lambda>d i. case d of None \<Rightarrow> Throws | Some n \<Rightarrow> Returns (Num n))"

definition the_loop :: "error + 'd loop \<Rightarrow> 'd loop" where
  "the_loop r = (case r of Inr l \<Rightarrow> l | Inl e \<Rightarrow> new_loop IndexKey)"

definition is_ok :: "error + 'a \<Rightarrow> bool" where
  "is_ok r = (case r of Inr l \<Rightarrow> True | Inl e \<Rightarrow> False)"

text \<open>The list \<open>[{id: 1}, {id: 2}, {id: 3}]\<close> rendered by a new binding keyed by \<open>item.id\<close>.\<close>

definition rendered123 :: "'p \<Rightarrow> 'p \<Rightarrow> 'p \<Rightarrow> (int \<times> 'p) loop" where
  "rendered123 p1 p2 p3 = the_loop (reconcile [(1, p1), (2, p2), (3, p3)] (new_loop id_key))"

lemma subs_set_subs [simp]: "subs (set_subs r cs s) r' = (if r' = r then cs else subs s r')"
  by (cases r; cases r') auto

lemma set_subs_fields [simp]:
  "effs (set_subs r cs s) = effs s"
  "pendingEffects (set_subs r cs s) = pendingEffects s"
  "current (set_subs r cs s) = current s"
  "reads (set_subs r cs s) = reads s"
  "invoked (set_subs r cs s) = invoked s"
  "obs_log (set_subs r cs s) = obs_log s"
  "next_cb (set_subs r cs s) = next_cb s"
  "next_eff (set_subs r cs s) = next_eff s"
  "next_comp (set_subs r cs s) = next_comp s"
  "isFlushing (set_subs r cs s) = isFlushing s"
  "isScheduled (set_subs r cs s) = isScheduled s"
  "stack (set_subs r cs s) = stack s"
  by (cases r; simp)+

lemma set_subs_sval [simp]:
  "sval (cells (set_subs r cs s) x) = sval (cells s x)"
  "sval (comps (set_subs r cs s) k) = sval (comps s k)"
  "dirty (comps (set_subs r cs s) k) = dirty (comps s k)"
  "getter (comps (set_subs r cs s) k) = getter (comps s k)"
  by (cases r; simp)+

lemma subs_upd [simp]:
  "subs (s\<lparr>effs := f\<rparr>) r = subs s r"
  "subs (s\<lparr>pendingEffects := p\<rparr>) r = subs s r"
  "subs (s\<lparr>isScheduled := b\<rparr>) r = subs s r"
  "subs (s\<lparr>isFlushing := b\<rparr>) r = subs s r"
  "subs (s\<lparr>frames := n\<rparr>) r = subs s r"
  "subs (s\<lparr>current := c\<rparr>) r = subs s r"
  "subs (s\<lparr>stack := st\<rparr>) r = subs s r"
  "subs (s\<lparr>invoked := i\<rparr>) r = subs s r"
  "subs (s\<lparr>reads := rd\<rparr>) r = subs s r"
  "subs (s\<lparr>obs_log := l\<rparr>) r = subs s r"
  "subs (s\<lparr>caught := n\<rparr>) r = subs s r"
  "subs (s\<lparr>next_cb := n\<rparr>) r = subs s r"
  "subs (s\<lparr>next_eff := n\<rparr>) r = subs s r"
  "subs (s\<lparr>next_id := n\<rparr>) r = subs s r"
  "subs (s\<lparr>next_comp := n\<rparr>) r = subs s r"
  by (cases r; simp)+

lemma fold_pres: "(\<And>x s. f (g x s) = f s) \<Longrightarrow> f (fold g xs s) = f s"
  by (induction xs arbitrary: s) simp_all

lemma fold_inv: "(\<And>x s. P s \<Longrightarrow> P (g x s)) \<Longrightarrow> P s \<Longrightarrow> P (fold g xs s)"
  by (induction xs arbitrary: s) simp_all

lemma schedule_fields [simp]:
  "effs (schedule e s) = effs s"
  "cells (schedule e s) = cells s"
  "comps (schedule e s) = comps s"
  "current (schedule e s) = current s"
  "stack (schedule e s) = stack s"
  "reads (schedule e s) = reads s"
  "invoked (schedule e s) = invoked s"
  "obs_log (schedule e s) = obs_log s"
  "next_cb (schedule e s) = next_cb s"
  "next_eff (schedule e s) = next_eff s"
  "next_comp (schedule e s) = next_comp s"
  "isFlushing (schedule e s) = isFlushing s"
  by (simp_all add: schedule_def Let_def)

lemma subs_schedule [simp]: "subs (schedule e s) r = subs s r"
  by (cases r) simp_all

lemma set_pending_schedule [simp]:
  "set (pendingEffects (schedule e s)) = insert e (set (pendingEffects s))"
  by (auto simp: schedule_def Let_def)

lemma distinct_pending_schedule [simp]:
  "distinct (pendingEffects (schedule e s)) = distinct (pendingEffects s)"
  by (auto simp: schedule_def Let_def)


lemma same_graph_refl [simp]: "same_graph s s"
  by (simp add: same_graph_def)

lemma same_graph_trans: "same_graph a b \<Longrightarrow> same_graph b c \<Longrightarrow> same_graph a c"
  by (simp add: same_graph_def)

lemma same_graph_call_cb: "same_graph s (call_cb nv ov cb s)"
  by (cases cb) (simp_all add: same_graph_def)

lemma same_graph_fold_call_cb: "same_graph s (fold (call_cb nv ov) cbs s)"
proof (induction cbs arbitrary: s)
  case Nil
  show ?case by simp
next
  case (Cons cb cbs)
  show ?case
    using same_graph_trans [OF same_graph_call_cb Cons.IH [of "call_cb nv ov cb s"]] by simp
qed

lemma same_graph_notify: "same_graph s (Signal_notify r nv ov s)"
  by (simp add: Signal_notify_def same_graph_fold_call_cb)

lemma same_graph_edges_ok: "same_graph s s' \<Longrightarrow> edges_ok s' = edges_ok s"
  by (simp add: same_graph_def edges_ok_def)

lemma same_graph_sub_of: "same_graph s s' \<Longrightarrow> sub_of s' e r = sub_of s e r"
  by (simp add: same_graph_def sub_of_def)

lemma subs_upd_sval [simp]:
  "subs (s\<lparr>cells := (cells s)(x := (cells s x)\<lparr>sval := v\<rparr>)\<rparr>) r = subs s r"
  "subs (s\<lparr>comps := (comps s)(k := (comps s k)\<lparr>sval := v\<rparr>)\<rparr>) r = subs s r"
  "subs (s\<lparr>comps := (comps s)(k := (comps s k)\<lparr>dirty := d\<rparr>)\<rparr>) r = subs s r"
  by (cases r; simp)+

subsection \<open>Unsubscribing\<close>

lemma unsubscribe_fields [simp]:
  "effs (unsubscribe u s) = effs s"
  "pendingEffects (unsubscribe u s) = pendingEffects s"
  "current (unsubscribe u s) = current s"
  "reads (unsubscribe u s) = reads s"
  "invoked (unsubscribe u s) = invoked s"
  "obs_log (unsubscribe u s) = obs_log s"
  "next_cb (unsubscribe u s) = next_cb s"
  "next_eff (unsubscribe u s) = next_eff s"
  "next_comp (unsubscribe u s) = next_comp s"
  "isFlushing (unsubscribe u s) = isFlushing s"
  "isScheduled (unsubscribe u s) = isScheduled s"
  "stack (unsubscribe u s) = stack s"
  by (simp_all add: unsubscribe_def)

lemma subs_unsubscribe [simp]:
  "subs (unsubscribe u s) r = (if r = fst u then removeAll (snd u) (subs s r) else subs s r)"
  by (simp add: unsubscribe_def)

lemma subs_fold_unsubscribe:
  "subs (fold unsubscribe us s) r = filter (\<lambda>c. (r, c) \<notin> set us) (subs s r)"
proof (induction us arbitrary: s)
  case Nil
  show ?case by simp
next
  case (Cons u us)
  show ?case
    by (cases u) (auto simp: Cons.IH removeAll_filter_not_eq intro: filter_cong)
qed

lemma effs_fold_unsubscribe [simp]: "effs (fold unsubscribe us s) = effs s"
  by (rule fold_pres) simp

lemma fold_unsubscribe_fields [simp]:
  "current (fold unsubscribe us s) = current s"
  "stack (fold unsubscribe us s) = stack s"
  "reads (fold unsubscribe us s) = reads s"
  "invoked (fold unsubscribe us s) = invoked s"
  "next_eff (fold unsubscribe us s) = next_eff s"
  "next_comp (fold unsubscribe us s) = next_comp s"
  "isFlushing (fold unsubscribe us s) = isFlushing s"
  "pendingEffects (fold unsubscribe us s) = pendingEffects s"
  "obs_log (fold unsubscribe us s) = obs_log s"
  by (rule fold_pres, simp)+

lemma fold_unsubscribe_vals [simp]:
  "sval (cells (fold unsubscribe us s) x) = sval (cells s x)"
  "sval (comps (fold unsubscribe us s) k) = sval (comps s k)"
  "dirty (comps (fold unsubscribe us s) k) = dirty (comps s k)"
  "getter (comps (fold unsubscribe us s) k) = getter (comps s k)"
  by (rule fold_pres, simp add: unsubscribe_def)+

subsection \<open>What no step of a body changes\<close>



lemma frame0_refl [simp]: "frame0 s s"
  by (simp add: frame0_def)

lemma frame0_trans: "frame0 a b \<Longrightarrow> frame0 b c \<Longrightarrow> frame0 a c"
  by (simp add: frame0_def)

lemma frame_refl [simp]: "frame s s"
  by (simp add: frame_def frame0_def)

lemma frame_trans: "frame a b \<Longrightarrow> frame b c \<Longrightarrow> frame a c"
  by (simp add: frame_def frame0_def)

lemma same_graph_frame: "same_graph s s' \<Longrightarrow> frame s s'"
  by (simp add: same_graph_def frame_def frame0_def)

lemma frame_Effect_track: "frame s (Effect_track e r s)"
  by (simp add: Effect_track_def Let_def Signal_subscribe_def frame_def frame0_def)

lemma frame_track_read: "frame s (track_read r s)"
proof (cases "current s")
  case None
  then show ?thesis by (simp add: track_read_def Let_def frame_def frame0_def)
next
  case (Some e)
  define s1 where "s1 = s\<lparr>reads := reads s @ [r],
     effs := (effs s)(e := (effs s e)\<lparr>last_reads := last_reads (effs s e) @ [r]\<rparr>)\<rparr>"
  have "frame s s1" by (simp add: s1_def frame_def frame0_def)
  then have "frame s (Effect_track e r s1)" by (rule frame_trans [OF _ frame_Effect_track])
  then show ?thesis using Some by (simp add: track_read_def Let_def s1_def)
qed

lemma frame_Signal_get: "frame s (snd (Signal_get x s))"
  by (simp add: Signal_get_def Let_def frame_track_read)

lemma frame_Signal_set: "frame s (Signal_set x v s)"
proof -
  have "frame s (s\<lparr>cells := (cells s)(x := (cells s x)\<lparr>sval := v\<rparr>)\<rparr>)"
    by (simp add: frame_def frame0_def)
  then show ?thesis
    by (auto simp: Signal_set_def Let_def intro: frame_trans same_graph_frame same_graph_notify)
qed

lemma frame_eval_expr: "frame s (snd (eval_expr g s))"
proof (induction g arbitrary: s)
  case (Lit v)
  show ?case by simp
next
  case (Get x)
  show ?case by (simp add: frame_Signal_get)
next
  case (Cond c a b)
  show ?case
    using Cond.IH(1) [of s] Cond.IH(2) [of "snd (eval_expr c s)"] Cond.IH(3) [of "snd (eval_expr c s)"]
    by (auto split: prod.split intro: frame_trans)
qed

lemma frame_compute_and_notify: "frame s (compute_and_notify k s)"
proof -
  obtain nv s1 where ev: "eval_expr (getter (comps s k)) s = (nv, s1)"
    by (cases "eval_expr (getter (comps s k)) s")
  have f1: "frame s s1" using frame_eval_expr [of s "getter (comps s k)"] ev by simp
  define s2 where "s2 = s1\<lparr>comps := (comps s1)(k := (comps s1 k)\<lparr>sval := nv\<rparr>)\<rparr>"
  have f2: "frame s1 s2" by (simp add: s2_def frame_def frame0_def)
  have f3: "frame s2 (Signal_notify (Comp k) nv (sval (comps s2 k)) s2)"
    by (rule same_graph_frame [OF same_graph_notify])
  have f4: "\<And>t. frame t (t\<lparr>comps := (comps t)(k := (comps t k)\<lparr>dirty := False\<rparr>)\<rparr>)"
    by (simp add: frame_def frame0_def)
  show ?thesis
    unfolding compute_and_notify_def ev
    using f1 f2 f3 f4
    by (auto simp: Let_def s2_def intro: frame_trans)
qed

lemma frame_ComputedSignal_get: "frame s (snd (ComputedSignal_get k s))"
proof -
  define s1 where "s1 = (if dirty (comps s k) then ComputedSignal_recompute k s else s)"
  have f1: "frame s s1"
    by (simp add: s1_def ComputedSignal_recompute_def frame_compute_and_notify)
  have "frame s (track_read (Comp k) s1)"
    by (rule frame_trans [OF f1 frame_track_read])
  then show ?thesis
    unfolding ComputedSignal_get_def Let_def s1_def by simp
qed

lemma frame_Effect_cleanup: "frame s (Effect_cleanup e s)"
  by (simp add: Effect_cleanup_def Let_def frame_def frame0_def)

lemma frame_Effect_stop: "frame s (Effect_stop e s)"
  by (simp add: Effect_stop_def clear_dependencies_def Effect_cleanup_def Let_def frame_def frame0_def)

text \<open>A property of every step of a body holds of the body.\<close>

lemma exec_body_rel:
  assumes refl: "\<And>s. R s s"
    and trans: "\<And>a b c. R a b \<Longrightarrow> R b c \<Longrightarrow> R a c"
    and rd: "\<And>x s. R s (snd (Signal_get x s))"
    and rc: "\<And>k s. R s (snd (ComputedSignal_get k s))"
    and wr: "\<And>x v s. R s (Signal_set x v s)"
    and st: "\<And>e s. R s (Effect_stop e s)"
    and th: "\<And>s. R s (s\<lparr>caught := caught s + 1\<rparr>)"
  shows "R s (exec_body b s)"
proof (induction b arbitrary: s)
  case Done
  show ?case by (simp add: refl)
next
  case Throw
  show ?case using th [of s] by simp
next
  case (Read x b)
  show ?case using trans [OF rd Read.IH] by simp
next
  case (ReadComp k b)
  show ?case using trans [OF rc ReadComp.IH] by simp
next
  case (Write x v b)
  show ?case using trans [OF wr Write.IH] by simp
next
  case (Stop e b)
  show ?case using trans [OF st Stop.IH] by simp
next
  case (IfEq x v b1 b2)
  show ?case
    using trans [OF rd [of s x] IfEq.IH(1)] trans [OF rd [of s x] IfEq.IH(2)]
    by (simp split: prod.split) (metis snd_conv)
qed

lemma frame_exec_body: "frame s (exec_body b s)"
proof (rule exec_body_rel [where R = frame])
  show "\<And>a b c. frame a b \<Longrightarrow> frame b c \<Longrightarrow> frame a c" by (rule frame_trans)
  show "\<And>s. frame s (s\<lparr>caught := caught s + 1\<rparr>)" by (simp add: frame_def frame0_def)
qed (rule frame_refl frame_Signal_get frame_ComputedSignal_get frame_Signal_set frame_Effect_stop)+

subsection \<open>Dependency edges\<close>

lemma edges_okD1:
  "edges_ok s \<Longrightarrow> EffCb k e \<in> set (subs s r) \<Longrightarrow> (r, EffCb k e) \<in> set (cleanups (effs s e))"
  by (simp add: edges_ok_def)

lemma edges_okD2:
  "edges_ok s \<Longrightarrow> r \<in> set (dependencies (effs s e)) \<Longrightarrow> \<exists>k. EffCb k e \<in> set (subs s r)"
  by (simp add: edges_ok_def)

lemma edges_okD3:
  "edges_ok s \<Longrightarrow> (r, c) \<in> set (cleanups (effs s e)) \<Longrightarrow> \<exists>k. c = EffCb k e"
  unfolding edges_ok_def by blast

lemma edges_okI:
  assumes "\<And>r k e. EffCb k e \<in> set (subs s r) \<Longrightarrow> (r, EffCb k e) \<in> set (cleanups (effs s e))"
    and "\<And>e r. r \<in> set (dependencies (effs s e)) \<Longrightarrow> \<exists>k. EffCb k e \<in> set (subs s r)"
    and "\<And>e r c. (r, c) \<in> set (cleanups (effs s e)) \<Longrightarrow> \<exists>k. c = EffCb k e"
  shows "edges_ok s"
  unfolding edges_ok_def using assms by blast

lemma edges_ok_cong:
  assumes "\<And>r. subs s' r = subs s r"
    and "\<And>e. dependencies (effs s' e) = dependencies (effs s e)"
    and "\<And>e. cleanups (effs s' e) = cleanups (effs s e)"
  shows "edges_ok s' = edges_ok s"
  by (simp add: edges_ok_def assms)

lemma edges_ok_flag [simp]:
  "edges_ok (s\<lparr>effs := (effs s)(e := (effs s e)\<lparr>active := b\<rparr>)\<rparr>) = edges_ok s"
  "edges_ok (s\<lparr>effs := (effs s)(e := (effs s e)\<lparr>scheduled := b\<rparr>)\<rparr>) = edges_ok s"
  by (rule edges_ok_cong; simp)+

lemma sub_of_flag [simp]:
  "sub_of (s\<lparr>effs := f\<rparr>) e' r = sub_of s e' r"
  by (simp add: sub_of_def)

lemma subs_drop:
  "subs (clear_dependencies e (Effect_cleanup e s)) r =
     filter (\<lambda>c. (r, c) \<notin> set (cleanups (effs s e))) (subs s r)"
  by (simp add: clear_dependencies_def Effect_cleanup_def Let_def subs_fold_unsubscribe)

lemma effs_drop:
  "effs (clear_dependencies e (Effect_cleanup e s)) =
     (effs s)(e := (effs s e)\<lparr>cleanups := [], dependencies := []\<rparr>)"
  by (simp add: clear_dependencies_def Effect_cleanup_def Let_def)

lemma sub_of_drop:
  assumes ok: "edges_ok s"
  shows "sub_of (clear_dependencies e (Effect_cleanup e s)) e' r \<longleftrightarrow> e' \<noteq> e \<and> sub_of s e' r"
proof
  assume "sub_of (clear_dependencies e (Effect_cleanup e s)) e' r"
  then obtain k where k: "EffCb k e' \<in> set (subs s r)"
    and nk: "(r, EffCb k e') \<notin> set (cleanups (effs s e))"
    unfolding sub_of_def subs_drop by auto
  from edges_okD1 [OF ok k] nk have "e' \<noteq> e" by auto
  with k show "e' \<noteq> e \<and> sub_of s e' r" unfolding sub_of_def by blast
next
  assume a: "e' \<noteq> e \<and> sub_of s e' r"
  then obtain k where k: "EffCb k e' \<in> set (subs s r)" unfolding sub_of_def by blast
  have "(r, EffCb k e') \<notin> set (cleanups (effs s e))"
  proof
    assume "(r, EffCb k e') \<in> set (cleanups (effs s e))"
    from edges_okD3 [OF ok this] a show False by simp
  qed
  with k show "sub_of (clear_dependencies e (Effect_cleanup e s)) e' r"
    unfolding sub_of_def subs_drop by auto
qed

lemma edges_ok_drop:
  assumes ok: "edges_ok s"
  shows "edges_ok (clear_dependencies e (Effect_cleanup e s))"
proof (rule edges_okI)
  fix r k e'
  assume "EffCb k e' \<in> set (subs (clear_dependencies e (Effect_cleanup e s)) r)"
  then have k: "EffCb k e' \<in> set (subs s r)"
    and nk: "(r, EffCb k e') \<notin> set (cleanups (effs s e))"
    unfolding subs_drop by auto
  from edges_okD1 [OF ok k] nk have ne: "e' \<noteq> e" by auto
  with edges_okD1 [OF ok k]
  show "(r, EffCb k e') \<in> set (cleanups (effs (clear_dependencies e (Effect_cleanup e s)) e'))"
    by (simp add: effs_drop)
next
  fix e' r
  assume d: "r \<in> set (dependencies (effs (clear_dependencies e (Effect_cleanup e s)) e'))"
  then have ne: "e' \<noteq> e" by (auto simp: effs_drop split: if_splits)
  with d have "r \<in> set (dependencies (effs s e'))" by (simp add: effs_drop)
  from edges_okD2 [OF ok this] have "sub_of s e' r" by (simp add: sub_of_def)
  with ne have "sub_of (clear_dependencies e (Effect_cleanup e s)) e' r"
    by (simp add: sub_of_drop [OF ok])
  then show "\<exists>k. EffCb k e' \<in> set (subs (clear_dependencies e (Effect_cleanup e s)) r)"
    by (simp add: sub_of_def)
next
  fix e' r c
  assume c: "(r, c) \<in> set (cleanups (effs (clear_dependencies e (Effect_cleanup e s)) e'))"
  then have ne: "e' \<noteq> e" by (auto simp: effs_drop split: if_splits)
  with c have "(r, c) \<in> set (cleanups (effs s e'))" by (simp add: effs_drop)
  from edges_okD3 [OF ok this] show "\<exists>k. c = EffCb k e'" .
qed

lemma set_subs_Effect_track:
  "set (subs (Effect_track e r s) r') =
     (if r \<in> set (dependencies (effs s e)) \<or> r' \<noteq> r then set (subs s r')
      else insert (EffCb (next_cb s) e) (set (subs s r)))"
  by (auto simp: Effect_track_def Let_def Signal_subscribe_def)

lemma effs_Effect_track:
  "effs (Effect_track e r s) =
     (if r \<in> set (dependencies (effs s e)) then effs s
      else (effs s)(e := (effs s e)\<lparr>dependencies := dependencies (effs s e) @ [r],
              cleanups := cleanups (effs s e) @ [(r, EffCb (next_cb s) e)]\<rparr>))"
  by (auto simp: Effect_track_def Let_def Signal_subscribe_def)

lemma sub_of_Effect_track:
  assumes ok: "edges_ok s"
  shows "sub_of (Effect_track e r s) e' r' \<longleftrightarrow> sub_of s e' r' \<or> (e' = e \<and> r' = r)"
proof (cases "r \<in> set (dependencies (effs s e))")
  case True
  from edges_okD2 [OF ok True] have "sub_of s e r" by (simp add: sub_of_def)
  with True show ?thesis by (auto simp: sub_of_def set_subs_Effect_track)
next
  case False
  then show ?thesis by (auto simp: sub_of_def set_subs_Effect_track)
qed

lemma edges_ok_Effect_track:
  assumes ok: "edges_ok s"
  shows "edges_ok (Effect_track e r s)"
proof (cases "r \<in> set (dependencies (effs s e))")
  case True
  then have "Effect_track e r s = s" by (simp add: Effect_track_def)
  with ok show ?thesis by simp
next
  case False
  show ?thesis
  proof (rule edges_okI)
    fix r' k e'
    assume "EffCb k e' \<in> set (subs (Effect_track e r s) r')"
    then have "EffCb k e' \<in> set (subs s r') \<or> (r' = r \<and> k = next_cb s \<and> e' = e)"
      using False by (auto simp: set_subs_Effect_track split: if_splits)
    then show "(r', EffCb k e') \<in> set (cleanups (effs (Effect_track e r s) e'))"
      using False edges_okD1 [OF ok, of k e' r'] by (auto simp: effs_Effect_track)
  next
    fix e' r'
    assume "r' \<in> set (dependencies (effs (Effect_track e r s) e'))"
    then have "r' \<in> set (dependencies (effs s e')) \<or> (e' = e \<and> r' = r)"
      using False by (auto simp: effs_Effect_track split: if_splits)
    then have "sub_of s e' r' \<or> (e' = e \<and> r' = r)"
      using edges_okD2 [OF ok, of r' e'] by (auto simp: sub_of_def)
    then have "sub_of (Effect_track e r s) e' r'" by (simp add: sub_of_Effect_track [OF ok])
    then show "\<exists>k. EffCb k e' \<in> set (subs (Effect_track e r s) r')" by (simp add: sub_of_def)
  next
    fix e' r' c
    assume "(r', c) \<in> set (cleanups (effs (Effect_track e r s) e'))"
    then have "(r', c) \<in> set (cleanups (effs s e')) \<or> (e' = e \<and> c = EffCb (next_cb s) e)"
      using False by (auto simp: effs_Effect_track split: if_splits)
    then show "\<exists>k. c = EffCb k e'"
      using edges_okD3 [OF ok, of r' c e'] by auto
  qed
qed

subsection \<open>The edges an effect gains while its function runs\<close>


lemma gains_refl [simp]: "gains C s s []"
  by (simp add: gains_def)

lemma gains_trans:
  assumes "gains C a b n1" and "gains C b c n2" and "active (effs c C) \<Longrightarrow> active (effs b C)"
  shows "gains C a c (n1 @ n2)"
  using assms by (auto simp: gains_def)

lemma trk_refl: "trk s s"
  by (simp add: trk_def)

lemma trk_trans:
  assumes ab: "trk a b" and bc: "trk b c"
  shows "trk a c"
proof -
  have fab: "frame a b" and fbc: "frame b c" using ab bc by (simp_all add: trk_def)
  have fac: "frame a c" by (rule frame_trans [OF fab fbc])
  have "edges_ok c \<and>
       (\<exists>new. reads c = reads a @ new \<and> (\<forall>C. current a = Some C \<longrightarrow> gains C a c new))"
    if oka: "edges_ok a"
  proof -
    from ab oka obtain n1 where okb: "edges_ok b" and r1: "reads b = reads a @ n1"
      and s1: "\<And>C. current a = Some C \<Longrightarrow> gains C a b n1"
      unfolding trk_def by blast
    from bc okb obtain n2 where okc: "edges_ok c" and r2: "reads c = reads b @ n2"
      and s2: "\<And>C. current b = Some C \<Longrightarrow> gains C b c n2"
      unfolding trk_def by blast
    have cur: "current b = current a" using fab by (simp add: frame_def frame0_def)
    have act: "\<And>C. active (effs c C) \<Longrightarrow> active (effs b C)" using fbc by (simp add: frame_def frame0_def)
    have "reads c = reads a @ (n1 @ n2)" using r1 r2 by simp
    moreover have "\<forall>C. current a = Some C \<longrightarrow> gains C a c (n1 @ n2)"
      using s1 s2 cur act by (auto intro: gains_trans)
    ultimately show ?thesis using okc by blast
  qed
  with fac show ?thesis unfolding trk_def by blast
qed

lemma trkI_quiet:
  assumes "frame s s'" and "reads s' = reads s"
    and "\<And>r. subs s' r = subs s r"
    and "\<And>e. dependencies (effs s' e) = dependencies (effs s e)"
    and "\<And>e. cleanups (effs s' e) = cleanups (effs s e)"
    and "\<And>e. last_reads (effs s' e) = last_reads (effs s e)"
  shows "trk s s'"
proof -
  have "edges_ok s' = edges_ok s" by (rule edges_ok_cong) (simp_all add: assms)
  moreover have "\<And>C r. sub_of s' C r = sub_of s C r" by (simp add: sub_of_def assms)
  ultimately show ?thesis using assms(1,2,6) by (simp add: trk_def gains_def)
qed

lemma last_reads_call_cb [simp]:
  "last_reads (effs (call_cb nv ov cb s) e) = last_reads (effs s e)"
  by (cases cb) simp_all

lemma last_reads_notify [simp]:
  "last_reads (effs (Signal_notify r nv ov s) e) = last_reads (effs s e)"
  unfolding Signal_notify_def by (rule fold_pres) simp

lemma trk_same_graph_notify: "trk s (Signal_notify r nv ov s)"
  using same_graph_notify [of s r nv ov]
  by (intro trkI_quiet) (simp_all add: same_graph_frame, simp_all add: same_graph_def)

lemma trk_track_read: "trk s (track_read r s)"
proof (cases "current s")
  case None
  define s1 where "s1 = s\<lparr>reads := reads s @ [r]\<rparr>"
  have ok1: "edges_ok s1 = edges_ok s" unfolding s1_def by (rule edges_ok_cong) simp_all
  from None have "track_read r s = s1" by (simp add: track_read_def s1_def)
  then show ?thesis using None ok1 frame_track_read [of s r]
    by (simp add: trk_def) (simp add: s1_def)
next
  case (Some e)
  define s1 where "s1 = s\<lparr>reads := reads s @ [r],
     effs := (effs s)(e := (effs s e)\<lparr>last_reads := last_reads (effs s e) @ [r]\<rparr>)\<rparr>"
  have ok1: "edges_ok s1 = edges_ok s" unfolding s1_def by (rule edges_ok_cong) simp_all
  have sub1: "\<And>C r'. sub_of s1 C r' = sub_of s C r'" by (simp add: s1_def sub_of_def)
  have eq: "track_read r s = Effect_track e r s1" using Some by (simp add: track_read_def s1_def)
  have rd: "reads (Effect_track e r s1) = reads s @ [r]"
    by (simp add: Effect_track_def Let_def Signal_subscribe_def s1_def)
  have lr: "last_reads (effs (Effect_track e r s1) e) = last_reads (effs s e) @ [r]"
    by (simp add: effs_Effect_track) (simp add: s1_def)
  have "edges_ok (Effect_track e r s1) \<and> gains e s (Effect_track e r s1) [r]"
    if ok: "edges_ok s"
  proof -
    have ok': "edges_ok s1" using ok ok1 by simp
    show ?thesis
      using edges_ok_Effect_track [OF ok'] lr
      by (auto simp: gains_def sub_of_Effect_track [OF ok'] sub1)
  qed
  then show ?thesis
    using frame_track_read [of s r] rd Some unfolding trk_def eq by auto
qed

lemma trk_Signal_get: "trk s (snd (Signal_get x s))"
  by (simp add: Signal_get_def Let_def trk_track_read)

lemma trk_Signal_set: "trk s (Signal_set x v s)"
proof -
  have "trk s (s\<lparr>cells := (cells s)(x := (cells s x)\<lparr>sval := v\<rparr>)\<rparr>)"
    by (rule trkI_quiet) (simp_all add: frame_def frame0_def)
  then show ?thesis
    by (auto simp: Signal_set_def Let_def trk_refl
        intro: trk_trans trk_same_graph_notify)
qed

lemma trk_eval_expr: "trk s (snd (eval_expr g s))"
proof (induction g arbitrary: s)
  case (Lit v)
  show ?case by (simp add: trk_refl)
next
  case (Get x)
  show ?case by (simp add: trk_Signal_get)
next
  case (Cond c a b)
  show ?case
    using Cond.IH(1) [of s] Cond.IH(2) [of "snd (eval_expr c s)"] Cond.IH(3) [of "snd (eval_expr c s)"]
    by (auto split: prod.split intro: trk_trans)
qed

lemma trk_compute_and_notify: "trk s (compute_and_notify k s)"
proof -
  obtain nv s1 where ev: "eval_expr (getter (comps s k)) s = (nv, s1)"
    by (cases "eval_expr (getter (comps s k)) s")
  have f1: "trk s s1" using trk_eval_expr [of s "getter (comps s k)"] ev by simp
  define s2 where "s2 = s1\<lparr>comps := (comps s1)(k := (comps s1 k)\<lparr>sval := nv\<rparr>)\<rparr>"
  have f2: "trk s1 s2" unfolding s2_def by (rule trkI_quiet) (simp_all add: frame_def frame0_def)
  have f3: "trk s2 (Signal_notify (Comp k) nv (sval (comps s2 k)) s2)"
    by (rule trk_same_graph_notify)
  have f4: "\<And>t. trk t (t\<lparr>comps := (comps t)(k := (comps t k)\<lparr>dirty := False\<rparr>)\<rparr>)"
    by (rule trkI_quiet) (simp_all add: frame_def frame0_def)
  show ?thesis
    unfolding compute_and_notify_def ev
    using f1 f2 f3 f4
    by (auto simp: Let_def s2_def intro: trk_trans)
qed

lemma trk_ComputedSignal_get: "trk s (snd (ComputedSignal_get k s))"
proof -
  define s1 where "s1 = (if dirty (comps s k) then ComputedSignal_recompute k s else s)"
  have f1: "trk s s1"
    by (simp add: s1_def ComputedSignal_recompute_def trk_compute_and_notify trk_refl)
  have "trk s (track_read (Comp k) s1)"
    by (rule trk_trans [OF f1 trk_track_read])
  then show ?thesis
    unfolding ComputedSignal_get_def Let_def s1_def by simp
qed

lemma trk_Effect_stop: "trk s (Effect_stop e s)"
proof -
  define s0 where "s0 = s\<lparr>effs := (effs s)(e := (effs s e)\<lparr>active := False\<rparr>)\<rparr>"
  have eq: "Effect_stop e s = clear_dependencies e (Effect_cleanup e s0)"
    by (simp add: Effect_stop_def s0_def)
  have rd: "reads (Effect_stop e s) = reads s @ []"
    by (simp add: Effect_stop_def clear_dependencies_def Effect_cleanup_def Let_def)
  have na: "\<not> active (effs (Effect_stop e s) e)"
    by (simp add: Effect_stop_def clear_dependencies_def Effect_cleanup_def Let_def)
  have lr: "\<And>C. last_reads (effs (Effect_stop e s) C) = last_reads (effs s C)"
    by (simp add: eq effs_drop) (simp add: s0_def)
  have "edges_ok (Effect_stop e s) \<and> (\<forall>C. gains C s (Effect_stop e s) [])"
    if ok: "edges_ok s"
  proof -
    have ok0: "edges_ok s0" using ok by (simp add: s0_def)
    have sb: "\<And>C r. C \<noteq> e \<Longrightarrow> sub_of (Effect_stop e s) C r \<longleftrightarrow> sub_of s C r"
      unfolding eq by (simp add: sub_of_drop [OF ok0]) (simp add: s0_def)
    have ok': "edges_ok (Effect_stop e s)" unfolding eq by (rule edges_ok_drop [OF ok0])
    have "\<And>C. active (effs (Effect_stop e s) C) \<Longrightarrow> C \<noteq> e" using na by auto
    with sb ok' lr show ?thesis by (simp add: gains_def)
  qed
  then show ?thesis using frame_Effect_stop [of s e] rd unfolding trk_def by blast
qed

lemma trk_exec_body: "trk s (exec_body b s)"
proof (rule exec_body_rel [where R = trk])
  show "\<And>a b c. trk a b \<Longrightarrow> trk b c \<Longrightarrow> trk a c" by (rule trk_trans)
  show "\<And>s. trk s (s\<lparr>caught := caught s + 1\<rparr>)"
    by (rule trkI_quiet) (simp_all add: frame_def frame0_def)
qed (rule trk_refl trk_Signal_get trk_ComputedSignal_get trk_Signal_set trk_Effect_stop)+

subsection \<open>Effect.run\<close>


lemma edges_ok_reset [simp]:
  "edges_ok (s\<lparr>effs := (effs s)(e := (effs s e)\<lparr>scheduled := b, last_reads := l\<rparr>)\<rparr>) = edges_ok s"
  by (rule edges_ok_cong) simp_all

lemma run_prepare_eq:
  "run_prepare e s =
     clear_dependencies e (Effect_cleanup e
       (s\<lparr>effs := (effs s)(e := (effs s e)\<lparr>scheduled := False, last_reads := []\<rparr>)\<rparr>))"
  by (simp add: run_prepare_def)

lemma edges_ok_run_prepare: "edges_ok s \<Longrightarrow> edges_ok (run_prepare e s)"
  unfolding run_prepare_eq by (rule edges_ok_drop) simp

lemma sub_of_run_prepare:
  "edges_ok s \<Longrightarrow> sub_of (run_prepare e s) e' r \<longleftrightarrow> e' \<noteq> e \<and> sub_of s e' r"
  unfolding run_prepare_eq by (subst sub_of_drop) simp_all

lemma last_reads_run_prepare: "last_reads (effs (run_prepare e s) e) = []"
  by (simp add: run_prepare_eq effs_drop)

lemma dependencies_run_prepare: "dependencies (effs (run_prepare e s) e) = []"
  by (simp add: run_prepare_eq effs_drop)

lemma run_prepare_fields [simp]:
  "reads (run_prepare e s) = reads s"
  "invoked (run_prepare e s) = invoked s"
  "current (run_prepare e s) = current s"
  "stack (run_prepare e s) = stack s"
  "pendingEffects (run_prepare e s) = pendingEffects s"
  "active (effs (run_prepare e s) e') = active (effs s e')"
  "fn (effs (run_prepare e s) e') = fn (effs s e')"
  by (simp_all add: run_prepare_def clear_dependencies_def Effect_cleanup_def Let_def)

lemma trk_call_fn: "trk (s\<lparr>invoked := invoked s @ [e]\<rparr>) (call_fn e s)"
  by (simp add: call_fn_def Let_def trk_exec_body trk_compute_and_notify split: fnbody.split)

lemma tracked_run:
  assumes ok: "edges_ok s"
  shows "edges_ok (EffectTracker_track C s)"
    and "gains C s (EffectTracker_track C s) (reads_since s (EffectTracker_track C s))"
proof -
  define s1 where "s1 = s\<lparr>stack := stack s @ [current s], current := Some C, invoked := invoked s @ [C]\<rparr>"
  define s2 where "s2 = call_fn C (s\<lparr>stack := stack s @ [current s], current := Some C\<rparr>)"
  have t: "trk s1 s2" unfolding s1_def s2_def
    using trk_call_fn [of "s\<lparr>stack := stack s @ [current s], current := Some C\<rparr>" C] by simp
  have ok1: "edges_ok s1 = edges_ok s" unfolding s1_def by (rule edges_ok_cong) simp_all
  have fin: "EffectTracker_track C s = s2\<lparr>current := current s, stack := butlast (stack s2)\<rparr>"
    by (simp add: EffectTracker_track_def Let_def s2_def)
  have c1: "current s1 = Some C" by (simp add: s1_def)
  from t ok ok1 c1 obtain new where ok2: "edges_ok s2" and rd: "reads s2 = reads s1 @ new"
    and g: "gains C s1 s2 new"
    unfolding trk_def by blast
  have "edges_ok (EffectTracker_track C s) = edges_ok s2"
    unfolding fin by (rule edges_ok_cong) simp_all
  with ok2 show "edges_ok (EffectTracker_track C s)" by simp
  have "reads_since s (EffectTracker_track C s) = new"
    by (simp add: reads_since_def fin rd s1_def)
  moreover have "gains C s (EffectTracker_track C s) new"
    using g by (simp add: gains_def fin sub_of_def) (simp add: s1_def)
  ultimately show "gains C s (EffectTracker_track C s) (reads_since s (EffectTracker_track C s))"
    by simp
qed

lemma edges_ok_EffectTracker_track:
  "edges_ok s \<Longrightarrow> edges_ok (EffectTracker_track C s)"
  by (rule tracked_run(1))

lemma edges_ok_Effect_run: "edges_ok s \<Longrightarrow> edges_ok (Effect_run e s)"
  by (simp add: Effect_run_def edges_ok_EffectTracker_track edges_ok_run_prepare)

subsection \<open>Notification\<close>


lemma cb_of_simps [simp]:
  "cb_of [] e = False"
  "cb_of (EffCb k e' # cbs) e = (e' = e \<or> cb_of cbs e)"
  "cb_of (Obs n # cbs) e = cb_of cbs e"
  by (auto simp: cb_of_def)

lemma call_cb_active [simp]: "active (effs (call_cb nv ov cb s) e) = active (effs s e)"
  by (cases cb) simp_all

lemma call_cb_scheduled:
  "scheduled (effs (call_cb nv ov cb s) e) \<longleftrightarrow>
     scheduled (effs s e) \<or> (cb_of [cb] e \<and> active (effs s e))"
  by (cases cb) auto

lemma call_cb_pending:
  "set (pendingEffects (call_cb nv ov cb s)) =
     set (pendingEffects s) \<union> {e. cb_of [cb] e \<and> active (effs s e) \<and> \<not> scheduled (effs s e)}"
  by (cases cb) auto

lemma call_cb_distinct [simp]:
  "distinct (pendingEffects (call_cb nv ov cb s)) = distinct (pendingEffects s)"
  by (cases cb) auto

lemma fold_call_cb_active [simp]:
  "active (effs (fold (call_cb nv ov) cbs s) e) = active (effs s e)"
  by (rule fold_pres) simp

lemma fold_call_cb_distinct [simp]:
  "distinct (pendingEffects (fold (call_cb nv ov) cbs s)) = distinct (pendingEffects s)"
  by (rule fold_pres) simp

lemma fold_call_cb_scheduled:
  "scheduled (effs (fold (call_cb nv ov) cbs s) e) \<longleftrightarrow>
     scheduled (effs s e) \<or> (cb_of cbs e \<and> active (effs s e))"
proof (induction cbs arbitrary: s)
  case Nil
  show ?case by simp
next
  case (Cons cb cbs)
  show ?case
    by (cases cb) (auto simp: Cons.IH call_cb_scheduled simp del: call_cb.simps)
qed

lemma fold_call_cb_pending:
  "set (pendingEffects (fold (call_cb nv ov) cbs s)) =
     set (pendingEffects s) \<union> {e. cb_of cbs e \<and> active (effs s e) \<and> \<not> scheduled (effs s e)}"
proof (induction cbs arbitrary: s)
  case Nil
  show ?case by simp
next
  case (Cons cb cbs)
  show ?case
    by (cases cb) (auto simp: Cons.IH call_cb_scheduled call_cb_pending simp del: call_cb.simps)
qed

lemma Signal_set_pending:
  assumes "sval (cells s x) \<noteq> v"
  shows "set (pendingEffects (Signal_set x v s)) =
     set (pendingEffects s) \<union> {e. sub_of s e (Cell x) \<and> active (effs s e) \<and> \<not> scheduled (effs s e)}"
  using assms by (simp add: Signal_set_def Let_def Signal_notify_def fold_call_cb_pending cb_of_def sub_of_def)

lemma Signal_set_scheduled:
  assumes "sval (cells s x) \<noteq> v"
  shows "scheduled (effs (Signal_set x v s) e) \<longleftrightarrow>
     scheduled (effs s e) \<or> (sub_of s e (Cell x) \<and> active (effs s e))"
  using assms by (simp add: Signal_set_def Let_def Signal_notify_def fold_call_cb_scheduled cb_of_def sub_of_def)

text \<open>
  Claim C1. A run of a computation \<open>C\<close> is \<open>run_prepare\<close> (unsubscribe every edge,
  clear the dependency set) followed by a call of its function under the tracker. After
  \<open>run_prepare\<close> no signal has a subscriber of \<open>C\<close>; after the run, \<open>C\<close> is subscribed to a
  signal exactly when that signal was read during the run; so a write that changes cell
  \<open>x\<close> puts \<open>C\<close> (not yet scheduled) into the pending set exactly when \<open>x\<close> was read
  during the run. The run is one that \<open>C\<close> does not stop itself in.
\<close>

theorem dependency_correctness:
  assumes "edges_ok s" and "active (effs s C)" and "active (effs (Effect_run C s) C)"
  shows "Effect_run C s = EffectTracker_track C (run_prepare C s) \<and>
         dependencies (effs (run_prepare C s) C) = [] \<and>
         (\<forall>r. \<not> sub_of (run_prepare C s) C r) \<and>
         (\<forall>r. sub_of (Effect_run C s) C r \<longleftrightarrow> r \<in> set (reads_since s (Effect_run C s))) \<and>
         (\<forall>x v. \<not> scheduled (effs (Effect_run C s) C) \<and> sval (cells (Effect_run C s) x) \<noteq> v \<longrightarrow>
            (C \<in> set (pendingEffects (Signal_set x v (Effect_run C s))) \<longleftrightarrow>
               Cell x \<in> set (reads_since s (Effect_run C s)) \<or>
               C \<in> set (pendingEffects (Effect_run C s))))"
proof -
  have run: "Effect_run C s = EffectTracker_track C (run_prepare C s)"
    using assms(2) by (simp add: Effect_run_def)
  have okp: "edges_ok (run_prepare C s)" by (rule edges_ok_run_prepare [OF assms(1)])
  have nosub: "\<And>r. \<not> sub_of (run_prepare C s) C r"
    by (simp add: sub_of_run_prepare [OF assms(1)])
  have act: "active (effs (EffectTracker_track C (run_prepare C s)) C)"
    using assms(3) run by simp
  have rs: "\<And>t. reads_since (run_prepare C s) t = reads_since s t"
    by (simp add: reads_since_def)
  have sub: "\<And>r. sub_of (Effect_run C s) C r \<longleftrightarrow> r \<in> set (reads_since s (Effect_run C s))"
    unfolding run using tracked_run(2) [OF okp, of C] act nosub rs by (simp add: gains_def)
  have wr: "C \<in> set (pendingEffects (Signal_set x v (Effect_run C s))) \<longleftrightarrow>
               Cell x \<in> set (reads_since s (Effect_run C s)) \<or>
               C \<in> set (pendingEffects (Effect_run C s))"
    if "\<not> scheduled (effs (Effect_run C s) C)" "sval (cells (Effect_run C s) x) \<noteq> v" for x v
    using that assms(3) by (auto simp: Signal_set_pending sub)
  show ?thesis using run dependencies_run_prepare [of C s] nosub sub wr by blast
qed

subsection \<open>Runs and flushes\<close>

lemma frame0_run_prepare: "frame0 s (run_prepare e s)"
  by (simp add: run_prepare_def clear_dependencies_def Effect_cleanup_def Let_def frame0_def)

lemma frame_call_fn: "frame (s\<lparr>invoked := invoked s @ [e]\<rparr>) (call_fn e s)"
  using trk_call_fn [of s e] by (simp add: trk_def)

lemma EffectTracker_track_frame0: "frame0 s (EffectTracker_track e s)"
  and EffectTracker_track_invoked: "invoked (EffectTracker_track e s) = invoked s @ [e]"
proof -
  define s1 where "s1 = s\<lparr>stack := stack s @ [current s], current := Some e\<rparr>"
  have f: "frame (s1\<lparr>invoked := invoked s1 @ [e]\<rparr>) (call_fn e s1)" by (rule frame_call_fn)
  have fin: "EffectTracker_track e s = (call_fn e s1)\<lparr>current := current s, stack := butlast (stack (call_fn e s1))\<rparr>"
    by (simp add: EffectTracker_track_def Let_def s1_def)
  show "frame0 s (EffectTracker_track e s)"
    using f unfolding fin by (simp add: frame_def frame0_def s1_def)
  show "invoked (EffectTracker_track e s) = invoked s @ [e]"
    using f unfolding fin by (simp add: frame_def frame0_def s1_def)
qed

lemma frame0_Effect_run: "frame0 s (Effect_run e s)"
  by (auto simp: Effect_run_def intro: frame0_trans frame0_run_prepare EffectTracker_track_frame0)

lemma invoked_Effect_run:
  "invoked (Effect_run e s) = (if active (effs s e) then invoked s @ [e] else invoked s)"
  by (simp add: Effect_run_def EffectTracker_track_invoked)

lemma frame0_run_method: "frame0 s (run_method e s)"
  by (simp add: run_method_def frame0_Effect_run split: option.split) (simp add: frame0_def)

lemma invoked_run_method:
  "invoked (run_method e s) =
     (if active (effs s e) \<and> run_overridden (effs s e) = None then invoked s @ [e] else invoked s)"
  by (simp add: run_method_def invoked_Effect_run split: option.split)

lemma frame0_flush_step: "frame0 s (flush_step e s)"
  by (simp add: flush_step_def frame0_run_method)

lemma invoked_flush_step:
  "invoked (flush_step e s) =
     (if active (effs s e) \<and> run_overridden (effs s e) = None then invoked s @ [e] else invoked s)"
  by (simp add: flush_step_def invoked_run_method)

lemma frame0_fold_flush_step: "frame0 s (fold flush_step es s)"
proof (induction es arbitrary: s)
  case Nil
  show ?case by simp
next
  case (Cons e es)
  show ?case using frame0_trans [OF frame0_flush_step Cons.IH] by simp
qed

lemma frame0_flush: "frame0 s (flush s)"
proof (cases "isFlushing s")
  case True
  then show ?thesis by (simp add: flush_def)
next
  case False
  define s2 where "s2 = s\<lparr>isFlushing := True, isScheduled := False, pendingEffects := []\<rparr>"
  have "frame0 s2 (fold flush_step (pendingEffects s) s2)" by (rule frame0_fold_flush_step)
  then show ?thesis using False
    by (simp add: flush_def Let_def s2_def frame0_def)
qed

text \<open>An inactive effect is never called again.\<close>

lemma count_fold_flush_step_inactive:
  assumes "\<not> active (effs s C)"
  shows "count_list (invoked (fold flush_step es s)) C = count_list (invoked s) C"
  using assms
proof (induction es arbitrary: s)
  case Nil
  show ?case by simp
next
  case (Cons e es)
  have na: "\<not> active (effs (flush_step e s) C)"
    using frame0_flush_step [of s e] Cons.prems by (auto simp: frame0_def)
  have "count_list (invoked (flush_step e s)) C = count_list (invoked s) C"
    using Cons.prems by (auto simp: invoked_flush_step)
  with Cons.IH [OF na] show ?case by simp
qed

lemma count_flush_inactive:
  assumes "\<not> active (effs s C)"
  shows "count_list (invoked (flush s)) C = count_list (invoked s) C"
proof (cases "isFlushing s")
  case True
  then show ?thesis by (simp add: flush_def)
next
  case False
  define s2 where "s2 = s\<lparr>isFlushing := True, isScheduled := False, pendingEffects := []\<rparr>"
  have "count_list (invoked (fold flush_step (pendingEffects s) s2)) C = count_list (invoked s2) C"
    by (rule count_fold_flush_step_inactive) (simp add: s2_def assms)
  then show ?thesis using False
    by (simp add: flush_def Let_def s2_def)
qed

lemma frame0_stopped: "frame0 s s' \<Longrightarrow> stopped C s \<Longrightarrow> stopped C s'"
  by (auto simp: frame0_def stopped_def)

lemma frame_calls: "frame s s' \<Longrightarrow> calls s' C = calls s C"
  by (simp add: frame_def calls_def)

lemma frame_frame0: "frame s s' \<Longrightarrow> frame0 s s'"
  by (simp add: frame_def)

lemma stopped_exec_body:
  assumes "stopped C s"
  shows "stopped C (exec_body b s) \<and> calls (exec_body b s) C = calls s C"
  using frame_exec_body [of s b] assms
  by (auto intro: frame0_stopped frame_frame0 frame_calls)

lemma stopped_fold_flush_step:
  assumes "stopped C s"
  shows "stopped C (fold flush_step es s) \<and> calls (fold flush_step es s) C = calls s C"
  using frame0_stopped [OF frame0_fold_flush_step assms, of es]
    assms count_fold_flush_step_inactive [of s C es]
  by (simp add: calls_def stopped_def)

lemma stopped_flush:
  assumes "stopped C s"
  shows "stopped C (flush s) \<and> calls (flush s) C = calls s C"
  using frame0_stopped [OF frame0_flush assms] assms count_flush_inactive [of s C]
  by (simp add: calls_def stopped_def)

lemma stopped_Effect_new:
  assumes st: "stopped C s"
  shows "stopped C (snd (Effect_new f s)) \<and> calls (snd (Effect_new f s)) C = calls s C"
proof -
  define e where "e = next_eff s"
  define s1 where "s1 = s\<lparr>effs := (effs s)(e := new_effect f), next_eff := e + 1\<rparr>"
  have ne: "e \<noteq> C" using st by (auto simp: stopped_def e_def)
  have st1: "stopped C s1" using st ne by (auto simp: stopped_def s1_def e_def)
  have eq: "snd (Effect_new f s) = Effect_run e s1"
    by (simp add: Effect_new_def Let_def s1_def e_def)
  have "stopped C (Effect_run e s1)" by (rule frame0_stopped [OF frame0_Effect_run st1])
  moreover have "calls (Effect_run e s1) C = calls s C"
    using ne by (simp add: calls_def invoked_Effect_run) (simp add: s1_def)
  ultimately show ?thesis by (simp add: eq)
qed

lemma stopped_ComputedSignal_new:
  assumes st: "stopped C s"
  shows "stopped C (snd (ComputedSignal_new g s)) \<and> calls (snd (ComputedSignal_new g s)) C = calls s C"
proof -
  define k where "k = next_comp s"
  define s1 where "s1 = s\<lparr>comps := (comps s)(k := \<lparr>sval = Undefined, subscribers = [], getter = g,
                    ceffect = None, dirty = True\<rparr>), next_comp := k + 1\<rparr>"
  have st1: "stopped C s1" and c1: "calls s1 C = calls s C"
    using st by (simp_all add: stopped_def s1_def calls_def)
  obtain e s2 where en: "Effect_new (ComputedFn k) s1 = (e, s2)"
    by (cases "Effect_new (ComputedFn k) s1")
  have e: "e = next_eff s1" using en by (simp add: Effect_new_def Let_def)
  have ne: "e \<noteq> C" using st1 e by (auto simp: stopped_def)
  have st2: "stopped C s2" and c2: "calls s2 C = calls s C"
    using stopped_Effect_new [OF st1, of "ComputedFn k"] en c1 by simp_all
  have eq: "snd (ComputedSignal_new g s) =
      (s2\<lparr>comps := (comps s2)(k := (comps s2 k)\<lparr>ceffect := Some e\<rparr>)\<rparr>)
        \<lparr>effs := (effs s2)(e := (effs s2 e)\<lparr>run_overridden := Some k\<rparr>)\<rparr>"
    unfolding ComputedSignal_new_def Let_def k_def [symmetric] s1_def [symmetric] en by simp
  show ?thesis unfolding eq using st2 c2 ne by (simp add: stopped_def calls_def)
qed

lemma stopped_apply_op:
  assumes st: "stopped C s"
  shows "stopped C (apply_op a s) \<and> calls (apply_op a s) C = calls s C"
proof (cases a)
  case (OpWrite x v)
  then show ?thesis using frame_Signal_set [of s x v] st
    by (auto intro: frame0_stopped frame_frame0 frame_calls)
next
  case OpFlushSync
  then show ?thesis using stopped_flush [OF st] by simp
next
  case OpFrame
  have "stopped C (s\<lparr>frames := frames s - 1\<rparr>)" using st by (simp add: stopped_def)
  from stopped_flush [OF this] show ?thesis using OpFrame st by (simp add: calls_def)
next
  case (OpStop e)
  then show ?thesis using frame_Effect_stop [of s e] st
    by (auto intro: frame0_stopped frame_frame0 frame_calls)
next
  case (OpNewEffect b)
  then show ?thesis using stopped_Effect_new [OF st] by simp
next
  case (OpNewComputed g)
  then show ?thesis using stopped_ComputedSignal_new [OF st] by simp
next
  case (OpReadComputed k)
  then show ?thesis using frame_ComputedSignal_get [of s k] st
    by (auto intro: frame0_stopped frame_frame0 frame_calls)
qed

lemma stopped_apply_ops:
  assumes "stopped C s"
  shows "stopped C (fold apply_op ops s) \<and> calls (fold apply_op ops s) C = calls s C"
  using assms
proof (induction ops arbitrary: s)
  case Nil
  then show ?case by simp
next
  case (Cons a ops)
  from stopped_apply_op [OF Cons.prems, of a] Cons.IH [of "apply_op a s"]
  show ?case by simp
qed

lemma Effect_stop_fields [simp]:
  "pendingEffects (Effect_stop e s) = pendingEffects s"
  "invoked (Effect_stop e s) = invoked s"
  "next_eff (Effect_stop e s) = next_eff s"
  "active (effs (Effect_stop e s) e') = (e' \<noteq> e \<and> active (effs s e'))"
  by (auto simp: Effect_stop_def clear_dependencies_def Effect_cleanup_def Let_def)

text \<open>
  Claim C6. \<open>stop\<close> leaves the pending set as it is and clears \<open>active\<close>; the flush
  skips the stopped effect; and whatever follows the stop (the rest of the body that
  called it, the rest of the same flush, any later writes, flushes, frames, reads and
  constructions) never calls the function of the stopped effect again.
\<close>

theorem stop_semantics:
  assumes "C < next_eff s"
  shows "\<not> active (effs (Effect_stop C s) C) \<and>
         pendingEffects (Effect_stop C s) = pendingEffects s \<and>
         flush_step C (Effect_stop C s) = Effect_stop C s \<and>
         (\<forall>b es ops.
            calls (fold apply_op ops (fold flush_step es (exec_body b (Effect_stop C s)))) C
              = calls s C)"
proof -
  have st: "stopped C (Effect_stop C s)" using assms by (simp add: stopped_def)
  have c0: "calls (Effect_stop C s) C = calls s C" by (simp add: calls_def)
  have "calls (fold apply_op ops (fold flush_step es (exec_body b (Effect_stop C s)))) C = calls s C"
    for b es ops
  proof -
    from stopped_exec_body [OF st, of b]
    have 1: "stopped C (exec_body b (Effect_stop C s))"
      and c1: "calls (exec_body b (Effect_stop C s)) C = calls s C" using c0 by simp_all
    from stopped_fold_flush_step [OF 1, of es]
    have 2: "stopped C (fold flush_step es (exec_body b (Effect_stop C s)))"
      and c2: "calls (fold flush_step es (exec_body b (Effect_stop C s))) C = calls s C"
      using c1 by simp_all
    from stopped_apply_ops [OF 2, of ops] c2 show ?thesis by simp
  qed
  then show ?thesis by (simp add: flush_step_def)
qed


subsection \<open>Steps that stop no effect\<close>


lemma active_Effect_track [simp]: "active (effs (Effect_track e r s) e') = active (effs s e')"
  by (simp add: effs_Effect_track)


lemma active_track_read [simp]: "active (effs (track_read r s) e') = active (effs s e')"
  by (simp add: track_read_def Let_def split: option.split)


lemma active_Signal_get [simp]: "active (effs (snd (Signal_get x s)) e') = active (effs s e')"
  by (simp add: Signal_get_def Let_def)


lemma active_Signal_notify [simp]: "active (effs (Signal_notify r nv ov s) e') = active (effs s e')"
  by (simp add: Signal_notify_def)


lemma active_Signal_set [simp]: "active (effs (Signal_set x v s) e') = active (effs s e')"
  by (simp add: Signal_set_def Let_def)


lemma active_eval_expr [simp]: "active (effs (snd (eval_expr g s)) e') = active (effs s e')"
proof (induction g arbitrary: s)
  case (Cond c a b)
  obtain w s1 where g: "eval_expr c s = (w, s1)" by (cases "eval_expr c s")
  have "active (effs s1 e') = active (effs s e')" using Cond.IH(1) [of s] g by simp
  with Cond.IH(2,3) g show ?case by simp
qed simp_all


lemma active_compute_and_notify [simp]:
  "active (effs (compute_and_notify k s) e') = active (effs s e')"
proof -
  obtain nv s1 where ev: "eval_expr (getter (comps s k)) s = (nv, s1)"
    by (cases "eval_expr (getter (comps s k)) s")
  have "active (effs s1 e') = active (effs s e')"
    using active_eval_expr [of "getter (comps s k)" s e'] ev by simp
  then show ?thesis by (simp add: compute_and_notify_def ev Let_def)
qed


lemma active_ComputedSignal_get [simp]:
  "active (effs (snd (ComputedSignal_get k s)) e') = active (effs s e')"
  by (simp add: ComputedSignal_get_def Let_def ComputedSignal_recompute_def)


lemma exec_body_keeps:
  "\<not> stops C b \<Longrightarrow> active (effs (exec_body b s) C) = active (effs s C)"
proof (induction b arbitrary: s)
  case (IfEq x v b1 b2)
  obtain w s1 where g: "Signal_get x s = (w, s1)" by (cases "Signal_get x s")
  have "active (effs s1 C) = active (effs s C)" using active_Signal_get [of x s C] g by simp
  with IfEq g show ?case by simp
qed simp_all


lemma call_fn_keeps:
  "\<not> fn_stops C (fn (effs s e)) \<Longrightarrow> active (effs (call_fn e s) C) = active (effs s C)"
  by (cases "fn (effs s e)") (simp_all add: call_fn_def Let_def exec_body_keeps)


lemma Effect_run_keeps:
  assumes "\<not> fn_stops C (fn (effs s e))"
  shows "active (effs (Effect_run e s) C) = active (effs s C)"
proof -
  have "active (effs (EffectTracker_track e (run_prepare e s)) C) = active (effs s C)"
    using assms call_fn_keeps [of C "(run_prepare e s)\<lparr>stack := stack s @ [current s], current := Some e\<rparr>" e]
    by (simp add: EffectTracker_track_def Let_def)
  then show ?thesis by (simp add: Effect_run_def)
qed


lemma flush_step_keeps:
  assumes "\<not> fn_stops C (fn (effs s e))"
  shows "active (effs (flush_step e s) C) = active (effs s C)"
  using assms by (simp add: flush_step_def run_method_def Effect_run_keeps split: option.split)


lemma calls_fold_flush_step:
  assumes "active (effs s C)" and "run_overridden (effs s C) = None"
    and "\<forall>e \<in> set es. \<not> fn_stops C (fn (effs s e))"
  shows "calls (fold flush_step es s) C = calls s C + count_list es C"
  using assms
proof (induction es arbitrary: s)
  case Nil
  show ?case by simp
next
  case (Cons e es)
  have f: "frame0 s (flush_step e s)" by (rule frame0_flush_step)
  have a: "active (effs (flush_step e s) C)"
    using Cons.prems by (simp add: flush_step_keeps)
  have r: "run_overridden (effs (flush_step e s) C) = None"
    using f Cons.prems(2) by (simp add: frame0_def)
  have n: "\<forall>e' \<in> set es. \<not> fn_stops C (fn (effs (flush_step e s) e'))"
    using f Cons.prems(3) by (simp add: frame0_def)
  have c: "calls (flush_step e s) C = calls s C + (if e = C then 1 else 0)"
    using Cons.prems(1,2) by (auto simp: calls_def invoked_flush_step)
  from Cons.IH [OF a r n] c show ?case by simp
qed


subsection \<open>Sequences of writes\<close>


lemma frame_writes: "frame s (writes ws s)"
proof (induction ws arbitrary: s)
  case Nil
  show ?case by simp
next
  case (Cons w ws)
  show ?case using frame_trans [OF frame_Signal_set Cons.IH] by (cases w) simp
qed


lemma active_writes [simp]: "active (effs (writes ws s) e) = active (effs s e)"
proof (induction ws arbitrary: s)
  case Nil
  show ?case by simp
next
  case (Cons w ws)
  obtain x v where w: "w = (x, v)" by (cases w)
  show ?case by (simp add: w Cons.IH)
qed

lemma pending_Signal_set_mono:
  "set (pendingEffects s) \<subseteq> set (pendingEffects (Signal_set x v s))"
proof (cases "sval (cells s x) = v")
  case True
  then show ?thesis by (simp add: Signal_set_def)
next
  case False
  then show ?thesis by (simp add: Signal_set_pending)
qed

lemma distinct_Signal_set [simp]:
  "distinct (pendingEffects (Signal_set x v s)) = distinct (pendingEffects s)"
  by (simp add: Signal_set_def Let_def Signal_notify_def)

lemma pending_writes_mono: "set (pendingEffects s) \<subseteq> set (pendingEffects (writes ws s))"
proof (induction ws arbitrary: s)
  case Nil
  show ?case by simp
next
  case (Cons w ws)
  obtain x v where w: "w = (x, v)" by (cases w)
  show ?case
    using pending_Signal_set_mono [of s x v] Cons.IH [of "Signal_set x v s"]
    by (auto simp: w)
qed

lemma distinct_writes [simp]: "distinct (pendingEffects (writes ws s)) = distinct (pendingEffects s)"
proof (induction ws arbitrary: s)
  case Nil
  show ?case by simp
next
  case (Cons w ws)
  obtain x v where w: "w = (x, v)" by (cases w)
  show ?case by (simp add: w Cons.IH)
qed

lemma count_list_distinct: "distinct xs \<Longrightarrow> x \<in> set xs \<Longrightarrow> count_list xs x = 1"
  by (induction xs) (auto simp: count_list_0_iff)

text \<open>
  Claim C2. A computation \<open>C\<close> that is idle (active, not scheduled) depends on some
  cells; any non-empty sequence of writes to those cells, each changing the value, does not
  call \<open>C\<close>, and the next flush calls it exactly once, provided no effect that this flush
  re-runs stops \<open>C\<close>.
\<close>

theorem batch_coalescing:
  assumes ok: "edges_ok s" and dist: "distinct (pendingEffects s)" and nf: "\<not> isFlushing s"
    and act: "active (effs s C)" and ns: "\<not> scheduled (effs s C)"
    and plain: "run_overridden (effs s C) = None"
    and ne: "ws \<noteq> []"
    and deps: "\<forall>(x, v) \<in> set ws. Cell x \<in> set (dependencies (effs s C))"
    and chg: "all_change ws s"
    and nostop: "\<forall>e \<in> set (pendingEffects (writes ws s)). \<not> fn_stops C (fn (effs s e))"
  shows "calls (writes ws s) C = calls s C \<and> calls (flush (writes ws s)) C = calls s C + 1"
proof -
  define s1 where "s1 = writes ws s"
  have f: "frame s s1" unfolding s1_def by (rule frame_writes)
  have c1: "calls s1 C = calls s C" by (rule frame_calls [OF f])
  obtain x v ws' where ws: "ws = (x, v) # ws'" using ne by (cases ws) auto
  have "sub_of s C (Cell x)" using deps edges_okD2 [OF ok, of "Cell x" C] by (auto simp: ws sub_of_def)
  moreover have "sval (cells s x) \<noteq> v" using chg by (simp add: ws)
  ultimately have "C \<in> set (pendingEffects (Signal_set x v s))"
    using act ns by (simp add: Signal_set_pending)
  then have mem: "C \<in> set (pendingEffects s1)"
    using pending_writes_mono [of "Signal_set x v s" ws'] by (auto simp: s1_def ws)
  have d1: "distinct (pendingEffects s1)" using dist by (simp add: s1_def)
  have nf1: "\<not> isFlushing s1" using f nf by (simp add: frame_def frame0_def)
  define s2 where "s2 = s1\<lparr>isFlushing := True, isScheduled := False, pendingEffects := []\<rparr>"
  have a2: "active (effs s2 C)" using act by (simp add: s2_def s1_def)
  have r2: "run_overridden (effs s2 C) = None" using plain f by (simp add: s2_def frame_def frame0_def)
  have n2: "\<forall>e \<in> set (pendingEffects s1). \<not> fn_stops C (fn (effs s2 e))"
    using nostop f by (simp add: s2_def frame_def frame0_def s1_def)
  have "calls (fold flush_step (pendingEffects s1) s2) C = calls s2 C + count_list (pendingEffects s1) C"
    by (rule calls_fold_flush_step [OF a2 r2 n2])
  moreover have "calls s2 C = calls s C" using c1 by (simp add: s2_def calls_def)
  moreover have "calls (flush s1) C = calls (fold flush_step (pendingEffects s1) s2) C"
    using nf1 by (simp add: flush_def Let_def s2_def calls_def)
  ultimately have "calls (flush s1) C = calls s C + 1"
    using count_list_distinct [OF d1 mem] by simp
  with c1 show ?thesis by (simp add: s1_def)
qed

subsection \<open>The engine's states are well formed\<close>

lemma edges_ok_init: "edges_ok init"
  by (rule edges_okI) (simp_all add: init_def new_signal_def new_effect_def, (case_tac r; simp)+)

lemma edges_ok_Signal_set: "edges_ok s \<Longrightarrow> edges_ok (Signal_set x v s)"
  using trk_Signal_set [of s x v] by (simp add: trk_def)

lemma edges_ok_Effect_new:
  assumes ok: "edges_ok s"
    and "dependencies (effs s (next_eff s)) = []" and "cleanups (effs s (next_eff s)) = []"
  shows "edges_ok (snd (Effect_new f s))"
proof -
  define s1 where "s1 = s\<lparr>effs := (effs s)(next_eff s := new_effect f), next_eff := next_eff s + 1\<rparr>"
  have "edges_ok s1 = edges_ok s"
    unfolding s1_def by (rule edges_ok_cong) (simp_all add: assms(2,3) new_effect_def)
  then have "edges_ok (Effect_run (next_eff s) s1)" using ok by (simp add: edges_ok_Effect_run)
  then show ?thesis by (simp add: Effect_new_def Let_def s1_def)
qed

lemma edges_ok_ex1: "edges_ok ex1"
  unfolding ex1_def
  by (rule edges_ok_Effect_new [OF edges_ok_Signal_set [OF edges_ok_init]]; code_simp)

lemma edges_ok_ex2: "edges_ok ex2"
proof -
  have "edges_ok ex2 = edges_ok (Signal_set 0 (Num 0) ex1)"
    unfolding ex2_def by (rule edges_ok_cong) simp_all
  then show ?thesis by (simp add: edges_ok_Signal_set edges_ok_ex1)
qed

lemma edges_ok_ex_sum: "edges_ok ex_sum"
  unfolding ex_sum_def
  by (rule edges_ok_Effect_new [OF edges_ok_init]; code_simp)

theorem dependency_correctness_witness:
  "edges_ok ex2 \<and> active (effs ex2 0) \<and> active (effs (Effect_run 0 ex2) 0) \<and>
   reads_since ex1 ex1 = [] \<and> reads ex1 = [Cell 0, Cell 1] \<and>
   reads_since ex2 (Effect_run 0 ex2) = [Cell 0, Cell 2] \<and>
   sub_of (Effect_run 0 ex2) 0 (Cell 2) \<and> \<not> sub_of (Effect_run 0 ex2) 0 (Cell 1) \<and>
   0 \<notin> set (pendingEffects (Signal_set 1 (Num 5) (Effect_run 0 ex2))) \<and>
   0 \<in> set (pendingEffects (Signal_set 2 (Num 5) (Effect_run 0 ex2)))"
proof -
  have h2: "active (effs ex2 0)" by code_simp
  have h3: "active (effs (Effect_run 0 ex2) 0)" by code_simp
  have r0: "reads_since ex1 ex1 = []" by (simp add: reads_since_def)
  have r1: "reads ex1 = [Cell 0, Cell 1]" by code_simp
  have rs: "reads_since ex2 (Effect_run 0 ex2) = [Cell 0, Cell 2]" by code_simp
  have ns: "\<not> scheduled (effs (Effect_run 0 ex2) 0)" by code_simp
  have v1: "sval (cells (Effect_run 0 ex2) 1) \<noteq> Num 5" by code_simp
  have v2: "sval (cells (Effect_run 0 ex2) 2) \<noteq> Num 5" by code_simp
  have pe: "pendingEffects (Effect_run 0 ex2) = []" by code_simp
  note dc = dependency_correctness [OF edges_ok_ex2 h2 h3]
  have sub: "sub_of (Effect_run 0 ex2) 0 r \<longleftrightarrow> r \<in> set (reads_since ex2 (Effect_run 0 ex2))" for r
    using dc by blast
  have wr: "0 \<in> set (pendingEffects (Signal_set x v (Effect_run 0 ex2))) \<longleftrightarrow>
               Cell x \<in> set (reads_since ex2 (Effect_run 0 ex2)) \<or>
               0 \<in> set (pendingEffects (Effect_run 0 ex2))"
    if "\<not> scheduled (effs (Effect_run 0 ex2) 0)" "sval (cells (Effect_run 0 ex2) x) \<noteq> v" for x v
    using dc that by blast
  have "sub_of (Effect_run 0 ex2) 0 (Cell 2)" and "\<not> sub_of (Effect_run 0 ex2) 0 (Cell 1)"
    by (simp_all add: sub rs)
  moreover have "0 \<notin> set (pendingEffects (Signal_set 1 (Num 5) (Effect_run 0 ex2)))"
    using wr [OF ns v1] by (simp add: rs pe)
  moreover have "0 \<in> set (pendingEffects (Signal_set 2 (Num 5) (Effect_run 0 ex2)))"
    using wr [OF ns v2] by (simp add: rs pe)
  ultimately show ?thesis using edges_ok_ex2 h2 h3 r0 r1 rs by blast
qed

theorem batch_coalescing_witness:
  "calls ex_sum 0 = 1 \<and>
   calls (writes [(0, Num 1), (1, Num 2), (2, Num 3)] ex_sum) 0 = 1 \<and>
   calls (flush (writes [(0, Num 1), (1, Num 2), (2, Num 3)] ex_sum)) 0 = 2"
proof -
  have c: "calls ex_sum 0 = 1" by code_simp
  have h: "distinct (pendingEffects ex_sum)" "\<not> isFlushing ex_sum" "active (effs ex_sum 0)"
    "\<not> scheduled (effs ex_sum 0)" "run_overridden (effs ex_sum 0) = None"
    "[(0, Num 1), (1, Num 2), (2, Num 3)] \<noteq> ([] :: (nat \<times> val) list)"
    "\<forall>(x, v) \<in> set [(0, Num 1), (1, Num 2), (2, Num 3)]. Cell x \<in> set (dependencies (effs ex_sum 0))"
    "all_change [(0, Num 1), (1, Num 2), (2, Num 3)] ex_sum"
    "\<forall>e \<in> set (pendingEffects (writes [(0, Num 1), (1, Num 2), (2, Num 3)] ex_sum)).
        \<not> fn_stops 0 (fn (effs ex_sum e))"
    by code_simp+
  from batch_coalescing [OF edges_ok_ex_sum h] c show ?thesis by simp
qed

theorem stop_semantics_witness:
  "0 < next_eff ex1 \<and> calls ex1 0 = 1 \<and> pendingEffects (Signal_set 0 (Num 0) ex1) = [0] \<and>
   calls (fold apply_op [OpWrite 1 (Num 7), OpFlushSync, OpFrame]
     (fold flush_step [0] (exec_body (Write 0 (Num 5) Done) (Effect_stop 0 (Signal_set 0 (Num 0) ex1))))) 0 = 1"
proof -
  have h: "0 < next_eff (Signal_set 0 (Num 0) ex1)" by code_simp
  have c: "calls (Signal_set 0 (Num 0) ex1) 0 = 1" "calls ex1 0 = 1"
    "pendingEffects (Signal_set 0 (Num 0) ex1) = [0]" "0 < next_eff ex1" by code_simp+
  have "calls (fold apply_op [OpWrite 1 (Num 7), OpFlushSync, OpFrame]
     (fold flush_step [0] (exec_body (Write 0 (Num 5) Done) (Effect_stop 0 (Signal_set 0 (Num 0) ex1))))) 0
       = calls (Signal_set 0 (Num 0) ex1) 0"
    using stop_semantics [OF h] by blast
  with c show ?thesis by presburger
qed

section \<open>Computed signals\<close>

lemma obs_log_fold_call_cb:
  "obs_log (fold (call_cb nv ov) cbs s) = obs_log s @ map (\<lambda>n. (n, nv, ov)) (observers cbs)"
proof (induction cbs arbitrary: s)
  case Nil
  show ?case by simp
next
  case (Cons cb cbs)
  show ?case by (cases cb) (simp_all add: Cons.IH)
qed

lemma comps_Effect_track_Cell [simp]:
  "comps (Effect_track e (Cell x) s) = comps s"
  "obs_log (Effect_track e r s) = obs_log s"
  by (simp_all add: Effect_track_def Let_def Signal_subscribe_def)

lemma comps_Signal_get [simp]:
  "comps (snd (Signal_get x s)) = comps s"
  "obs_log (snd (Signal_get x s)) = obs_log s"
  by (simp_all add: Signal_get_def track_read_def Let_def split: option.split)

lemma comps_eval_expr: "comps (snd (eval_expr g s)) = comps s \<and> obs_log (snd (eval_expr g s)) = obs_log s"
proof (induction g arbitrary: s)
  case (Cond c a b)
  obtain w s1 where g: "eval_expr c s = (w, s1)" by (cases "eval_expr c s")
  have "comps s1 = comps s \<and> obs_log s1 = obs_log s" using Cond.IH(1) [of s] g by simp
  with Cond.IH(2,3) [of s1] g show ?case by simp
qed simp_all

lemma sval_comps_notify [simp]:
  "sval (comps (Signal_notify r nv ov s) k) = sval (comps s k)"
  using same_graph_notify [of s r nv ov] by (simp add: same_graph_def)

text \<open>
  Claim C9. When the value the getter returns differs from the cached one, the cached value
  is overwritten first and every outside subscriber of the computed signal is then called
  with the new value as both arguments, which is not the value the signal held before. The
  function of the computed signal's effect and \<open>_recompute\<close> are the same code.
\<close>

theorem computed_notify_args:
  assumes "nv = fst (eval_expr (getter (comps s k)) s)" and "sval (comps s k) \<noteq> nv"
  shows "ComputedSignal_recompute k s = compute_and_notify k s \<and>
         call_fn e (s\<lparr>effs := (effs s)(e := (effs s e)\<lparr>fn := ComputedFn k\<rparr>)\<rparr>) =
           compute_and_notify k (s\<lparr>effs := (effs s)(e := (effs s e)\<lparr>fn := ComputedFn k\<rparr>),
              invoked := invoked s @ [e]\<rparr>) \<and>
         sval (comps (compute_and_notify k s) k) = nv \<and>
         obs_log (compute_and_notify k s) =
           obs_log s @ map (\<lambda>n. (n, nv, nv)) (observers (subscribers (comps s k))) \<and>
         (\<forall>n a b. (n, a, b) \<in> set (drop (length (obs_log s)) (obs_log (compute_and_notify k s)))
             \<longrightarrow> a = nv \<and> b = nv \<and> b \<noteq> sval (comps s k))"
proof -
  define s1 where "s1 = snd (eval_expr (getter (comps s k)) s)"
  have ev: "eval_expr (getter (comps s k)) s = (nv, s1)" by (simp add: assms(1) s1_def)
  have c1: "comps s1 = comps s" and o1: "obs_log s1 = obs_log s"
    using comps_eval_expr [of "getter (comps s k)" s] by (simp_all add: s1_def)
  define s2 where "s2 = s1\<lparr>comps := (comps s1)(k := (comps s1 k)\<lparr>sval := nv\<rparr>)\<rparr>"
  have eq: "compute_and_notify k s =
      (Signal_notify (Comp k) nv nv s2)\<lparr>comps := (comps (Signal_notify (Comp k) nv nv s2))
         (k := (comps (Signal_notify (Comp k) nv nv s2) k)\<lparr>dirty := False\<rparr>)\<rparr>"
    using assms(2) by (simp add: compute_and_notify_def ev c1 Let_def s2_def)
  have v: "sval (comps (compute_and_notify k s) k) = nv"
    unfolding eq by (simp add: s2_def)
  have l: "obs_log (compute_and_notify k s) =
           obs_log s @ map (\<lambda>n. (n, nv, nv)) (observers (subscribers (comps s k)))"
    unfolding eq by (simp add: Signal_notify_def obs_log_fold_call_cb s2_def o1 c1)
  have d: "drop (length (obs_log s)) (obs_log (compute_and_notify k s)) =
      map (\<lambda>n. (n, nv, nv)) (observers (subscribers (comps s k)))"
    by (simp add: l)
  have a: "\<forall>n a b. (n, a, b) \<in> set (drop (length (obs_log s)) (obs_log (compute_and_notify k s)))
             \<longrightarrow> a = nv \<and> b = nv \<and> b \<noteq> sval (comps s k)"
    unfolding d using assms(2) by auto
  have c: "call_fn e (s\<lparr>effs := (effs s)(e := (effs s e)\<lparr>fn := ComputedFn k\<rparr>)\<rparr>) =
           compute_and_notify k (s\<lparr>effs := (effs s)(e := (effs s e)\<lparr>fn := ComputedFn k\<rparr>),
              invoked := invoked s @ [e]\<rparr>)"
    by (simp add: call_fn_def Let_def)
  have r: "ComputedSignal_recompute k s = compute_and_notify k s"
    by (simp add: ComputedSignal_recompute_def)
  show ?thesis by (intro conjI) (rule r c v l a)+
qed

theorem computed_notify_args_witness:
  "fst (eval_expr (getter (comps exc2 0)) exc2) = Num 20 \<and>
   sval (comps exc2 0) = Num 10 \<and>
   subscribers (comps exc2 0) = [Obs 7] \<and>
   obs_log exc2 = [] \<and>
   obs_log (ComputedSignal_recompute 0 exc2) = [(7, Num 20, Num 20)]"
proof -
  have h1: "fst (eval_expr (getter (comps exc2 0)) exc2) = Num 20" by code_simp
  have v: "sval (comps exc2 0) = Num 10" by code_simp
  have h2: "sval (comps exc2 0) \<noteq> Num 20" by (simp add: v)
  have sb: "subscribers (comps exc2 0) = [Obs 7]" by code_simp
  have ol: "obs_log exc2 = []" by code_simp
  have "obs_log (ComputedSignal_recompute 0 exc2) =
           obs_log exc2 @ map (\<lambda>n. (n, Num 20, Num 20)) (observers (subscribers (comps exc2 0)))"
    using computed_notify_args [OF h1 [symmetric] h2] by metis
  then have "obs_log (ComputedSignal_recompute 0 exc2) = [(7, Num 20, Num 20)]"
    by (simp add: sb ol)
  with h1 v sb ol show ?thesis by blast
qed

text \<open>
  Claim C4. The getter \<open>flag ? a : b\<close> is first evaluated with \<open>flag\<close> true, by the computed
  signal's effect, which subscribes to \<open>flag\<close> and \<open>a\<close>. After \<open>flag\<close> is cleared and the flush
  has marked the signal dirty, reading it calls the getter (the value becomes \<open>b\<close>'s, 20),
  but not under the tracker: the effect's dependency set is still \<open>flag\<close>, \<open>a\<close>, and \<open>b\<close> has
  no subscriber. Writing 30 to \<open>b\<close> and flushing leaves the signal clean, and reading it
  returns the stale 20 although the getter would now return 30. The effect also stays
  \<open>scheduled\<close> for ever, so no later write marks the signal dirty again.
\<close>

theorem computed_recompute_untracked:
  "dependencies (effs exc1 0) = [Cell 0, Cell 1] \<and> fst (ComputedSignal_get 0 exc1) = Num 10 \<and>
   dirty (comps exc2 0) \<and> current exc2 = None \<and>
   fst (ComputedSignal_get 0 exc2) = Num 20 \<and>
   reads_since exc2 exc3 = [Cell 0, Cell 2, Comp 0] \<and>
   dependencies (effs exc3 0) = [Cell 0, Cell 1] \<and>
   subs exc3 (Cell 2) = [] \<and> subs exc3 (Cell 1) \<noteq> [] \<and>
   scheduled (effs exc3 0) \<and> pendingEffects exc3 = [] \<and>
   \<not> dirty (comps exc4 0) \<and>
   fst (eval_expr ex_getter exc4) = Num 30 \<and>
   fst (ComputedSignal_get 0 exc4) = Num 20"
proof -
  have "dependencies (effs exc1 0) = [Cell 0, Cell 1]" by code_simp
  moreover have "fst (ComputedSignal_get 0 exc1) = Num 10" by code_simp
  moreover have "dirty (comps exc2 0)" by code_simp
  moreover have "current exc2 = None" by code_simp
  moreover have "fst (ComputedSignal_get 0 exc2) = Num 20" by code_simp
  moreover have "reads_since exc2 exc3 = [Cell 0, Cell 2, Comp 0]" by code_simp
  moreover have "dependencies (effs exc3 0) = [Cell 0, Cell 1]" by code_simp
  moreover have "subs exc3 (Cell 2) = []" by code_simp
  moreover have "subs exc3 (Cell 1) \<noteq> []" by code_simp
  moreover have "scheduled (effs exc3 0)" by code_simp
  moreover have "pendingEffects exc3 = []" by code_simp
  moreover have "\<not> dirty (comps exc4 0)" by code_simp
  moreover have "fst (eval_expr ex_getter exc4) = Num 30" by code_simp
  moreover have "fst (ComputedSignal_get 0 exc4) = Num 20" by code_simp
  ultimately show ?thesis by blast
qed

section \<open>Wrapped arrays\<close>

lemma sval_cells_Effect_track [simp]:
  "sval (cells (Effect_track e r s) y) = sval (cells s y)"
  by (simp add: Effect_track_def Let_def Signal_subscribe_def)

lemma sval_cells_track_read [simp]:
  "sval (cells (track_read r s) y) = sval (cells s y)"
  by (simp add: track_read_def Let_def split: option.split)


lemma sval_cells_notify [simp]:
  "sval (cells (Signal_notify r nv ov s) y) = sval (cells s y)"
  using same_graph_notify [of s r nv ov] by (simp add: same_graph_def)

lemma sval_cells_Signal_set [simp]:
  "sval (cells (Signal_set x v s) y) = (if y = x then v else sval (cells s y))"
  by (simp add: Signal_set_def Let_def)


lemma sval_cells_emit [simp]:
  "sval (cells (emit c ev s) y) = (if y = c then Obj (next_obj s) else sval (cells s y))"
  by (simp add: emit_def)

lemma array_call_cells [simp]:
  "changeSignal (fst (array_call m a s)) = changeSignal a"
  "lengthSignal (fst (array_call m a s)) = lengthSignal a"
  "versionSignal (fst (array_call m a s)) = versionSignal a"
  "target (fst (array_call m a s)) = Array_prototype m (target a)"
  by (simp_all add: array_call_def Let_def)

lemma cells_distinct_array_call [simp]:
  "cells_distinct (fst (array_call m a s)) = cells_distinct a"
  by (simp add: cells_distinct_def)





lemma subs_Signal_set [simp]: "subs (Signal_set x v s) r = subs s r"
  using same_graph_notify [of "s\<lparr>cells := (cells s)(x := (cells s x)\<lparr>sval := v\<rparr>)\<rparr>" "Cell x" v "sval (cells s x)"]
  by (simp add: Signal_set_def Let_def same_graph_def)

lemma sub_of_Signal_set [simp]: "sub_of (Signal_set x v s) e r = sub_of s e r"
  by (simp add: sub_of_def)



lemma Signal_set_next_obj [simp]: "next_obj (Signal_set x v s) = next_obj s"
proof -
  have "next_obj (fold (call_cb nv ov) cbs t) = next_obj t" for nv ov cbs t
    by (rule fold_pres) (case_tac x, simp_all add: schedule_def Let_def)
  then show ?thesis by (simp add: Signal_set_def Let_def Signal_notify_def)
qed

lemma Signal_set_scheduled_mono:
  "scheduled (effs s e) \<Longrightarrow> scheduled (effs (Signal_set x v s) e)"
  by (cases "sval (cells s x) = v") (simp_all add: Signal_set_scheduled, simp add: Signal_set_def)





section \<open>The reactive wrapper\<close>

text \<open>
  Claim C3. Wrapping a primitive or \<open>null\<close> returns it, and wrapping the same raw plain
  object twice returns the same proxy. But \<open>reactive\<close> tests \<open>Array.isArray\<close> before it
  looks into \<open>_reactiveMap\<close>, so wrapping the same raw array twice (reference 1) returns
  two different proxies (references 2 and 3); and \<open>_reactiveMap\<close> has raw objects as keys
  only, so wrapping the proxy of a plain object (reference 0) returns a new proxy around
  the proxy: \<open>wrap(wrap(x))\<close> is reference 3 while \<open>wrap(x)\<close> is reference 2.
\<close>

theorem wrap_not_idempotent:
  "map (\<lambda>v. fst (reactive v wrap_init)) [Null, Undefined, Num 3, Str ''a'']
     = [Null, Undefined, Num 3, Str ''a''] \<and>
   fst (reactive (Obj 0) wrap_init) = Obj 2 \<and>
   fst (reactive (Obj 0) (snd (reactive (Obj 0) wrap_init))) = Obj 2 \<and>
   fst (reactive (Obj 1) wrap_init) = Obj 2 \<and>
   fst (reactive (Obj 1) (snd (reactive (Obj 1) wrap_init))) = Obj 3 \<and>
   fst (reactive (Obj 2) (snd (reactive (Obj 0) wrap_init))) = Obj 3 \<and>
   fst (reactive (Obj 0) (snd (reactive (Obj 2) (snd (reactive (Obj 0) wrap_init))))) = Obj 2 \<and>
   fst (reactive (Obj 2) (snd (reactive (Obj 1) wrap_init))) = Obj 3"
proof -
  have "map (\<lambda>v. fst (reactive v wrap_init)) [Null, Undefined, Num 3, Str ''a'']
     = [Null, Undefined, Num 3, Str ''a'']" by code_simp
  moreover have "fst (reactive (Obj 0) wrap_init) = Obj 2" by code_simp
  moreover have "fst (reactive (Obj 0) (snd (reactive (Obj 0) wrap_init))) = Obj 2" by code_simp
  moreover have "fst (reactive (Obj 1) wrap_init) = Obj 2" by code_simp
  moreover have "fst (reactive (Obj 1) (snd (reactive (Obj 1) wrap_init))) = Obj 3" by code_simp
  moreover have "fst (reactive (Obj 2) (snd (reactive (Obj 0) wrap_init))) = Obj 3" by code_simp
  moreover have "fst (reactive (Obj 0) (snd (reactive (Obj 2) (snd (reactive (Obj 0) wrap_init))))) = Obj 2"
    by code_simp
  moreover have "fst (reactive (Obj 2) (snd (reactive (Obj 1) wrap_init))) = Obj 3" by code_simp
  ultimately show ?thesis by blast
qed

text \<open>What does hold for every heap: primitives are returned, and a raw plain object that
  has been wrapped is found in the map.\<close>

declare isArray.simps [simp del] typeof_object.simps [simp del] array_length.simps [simp del]

lemma reactive_primitive:
  "reactive Null w = (Null, w)" "reactive Undefined w = (Undefined, w)"
  "reactive (Num n) w = (Num n, w)" "reactive (Str t) w = (Str t, w)"
  by (simp_all add: reactive_def)

lemma isArray_new_proxy:
  assumes "r < next_ref w"
  shows "isArray (snd (new_proxy t w)) r = isArray w r"
  using assms
proof (induction r rule: less_induct)
  case (less r)
  have h: "heap (snd (new_proxy t w)) r = heap w r"
    using less.prems by (simp add: new_proxy_def Let_def)
  have ih: "\<And>u. u < r \<Longrightarrow> isArray (snd (new_proxy t w)) u = isArray w u"
    using less by simp
  show ?case
    by (subst isArray.simps, subst (2) isArray.simps)
       (auto simp: h ih split: option.split jsobject.split)
qed

lemma isArray_getSignals [simp]: "isArray (getSignals t w) r = isArray w r"
proof (induction r rule: less_induct)
  case (less r)
  have h: "heap (getSignals t w) = heap w" by (simp add: getSignals_def split: option.split)
  show ?case
    by (subst isArray.simps, subst (2) isArray.simps)
       (auto simp: h less split: option.split jsobject.split)
qed

lemma reactive_plain_stable:
  assumes "r < next_ref w" and "\<not> isArray w r" and "typeof_object w r"
  shows "fst (reactive (Obj r) (snd (reactive (Obj r) w))) = fst (reactive (Obj r) w)"
proof (cases "reactiveMap w r")
  case (Some p)
  then show ?thesis using assms by (simp add: reactive_def)
next
  case None
  have 1: "reactive (Obj r) w = new_proxy r (getSignals r w)"
    using assms None by (simp add: reactive_def)
  have n: "next_ref (getSignals r w) = next_ref w" by (simp add: getSignals_def split: option.split)
  have 2: "\<not> isArray (snd (new_proxy r (getSignals r w))) r"
    using assms by (simp add: isArray_new_proxy n)
  have 3: "reactiveMap (snd (new_proxy r (getSignals r w))) r = Some (next_ref w)"
    by (simp add: new_proxy_def Let_def n)
  show ?thesis unfolding 1 using 2 3
    by (simp add: reactive_def) (simp add: new_proxy_def Let_def n)
qed

section \<open>The keyed list reconciler\<close>

text \<open>
  Claim C5. A binding keyed by \<open>item.id\<close> has rendered items with ids 1, 2, 3 (elements
  1, 2, 3 after the anchor, node 0). Reconciling with items with ids 2, 3, 4 succeeds;
  the instance of id 1 is detached and its cleanup runs, and nothing else is cleaned up;
  the items with ids 2 and 3 keep their elements 2 and 3 (and receive the new item); one
  new element, 4, is created, for id 4; the host tree holds 2, 3, 4 after the anchor.
\<close>

theorem reconcile_minimal:
  "instances (rendered123 p1 p2 p3) = [Some 1, Some 2, Some 3] \<and>
   children (rendered123 p1 p2 p3) = [0, 1, 2, 3] \<and>
   created (rendered123 p1 p2 p3) = [1, 2, 3] \<and>
   cleaned (rendered123 p1 p2 p3) = [] \<and>
   map (element_of_key (rendered123 p1 p2 p3)) [Num 1, Num 2, Num 3, Num 4]
     = [Some 1, Some 2, Some 3, None] \<and>
   is_ok (reconcile [(2, q2), (3, q3), (4, q4)] (rendered123 p1 p2 p3)) \<and>
   cleaned (the_loop (reconcile [(2, q2), (3, q3), (4, q4)] (rendered123 p1 p2 p3))) = [1] \<and>
   created (the_loop (reconcile [(2, q2), (3, q3), (4, q4)] (rendered123 p1 p2 p3))) = [1, 2, 3, 4] \<and>
   map (element_of_key (the_loop (reconcile [(2, q2), (3, q3), (4, q4)] (rendered123 p1 p2 p3))))
     [Num 1, Num 2, Num 3, Num 4] = [None, Some 2, Some 3, Some 4] \<and>
   instances (the_loop (reconcile [(2, q2), (3, q3), (4, q4)] (rendered123 p1 p2 p3)))
     = [Some 2, Some 3, Some 4] \<and>
   children (the_loop (reconcile [(2, q2), (3, q3), (4, q4)] (rendered123 p1 p2 p3))) = [0, 2, 3, 4] \<and>
   map (map_option i_data \<circ> objects (the_loop (reconcile [(2, q2), (3, q3), (4, q4)] (rendered123 p1 p2 p3))))
     [2, 3, 4] = [Some (2, q2), Some (3, q3), Some (4, q4)]"
proof -
  have "instances (rendered123 p1 p2 p3) = [Some 1, Some 2, Some 3]" by code_simp
  moreover have "children (rendered123 p1 p2 p3) = [0, 1, 2, 3]" by code_simp
  moreover have "created (rendered123 p1 p2 p3) = [1, 2, 3]" by code_simp
  moreover have "cleaned (rendered123 p1 p2 p3) = []" by code_simp
  moreover have "map (element_of_key (rendered123 p1 p2 p3)) [Num 1, Num 2, Num 3, Num 4]
     = [Some 1, Some 2, Some 3, None]" by code_simp
  moreover have "is_ok (reconcile [(2, q2), (3, q3), (4, q4)] (rendered123 p1 p2 p3))" by code_simp
  moreover have "cleaned (the_loop (reconcile [(2, q2), (3, q3), (4, q4)] (rendered123 p1 p2 p3))) = [1]"
    by code_simp
  moreover have "created (the_loop (reconcile [(2, q2), (3, q3), (4, q4)] (rendered123 p1 p2 p3))) = [1, 2, 3, 4]"
    by code_simp
  moreover have "map (element_of_key (the_loop (reconcile [(2, q2), (3, q3), (4, q4)] (rendered123 p1 p2 p3))))
     [Num 1, Num 2, Num 3, Num 4] = [None, Some 2, Some 3, Some 4]" by code_simp
  moreover have "instances (the_loop (reconcile [(2, q2), (3, q3), (4, q4)] (rendered123 p1 p2 p3)))
     = [Some 2, Some 3, Some 4]" by code_simp
  moreover have "children (the_loop (reconcile [(2, q2), (3, q3), (4, q4)] (rendered123 p1 p2 p3))) = [0, 2, 3, 4]"
    by code_simp
  moreover have "map (map_option i_data \<circ> objects (the_loop (reconcile [(2, q2), (3, q3), (4, q4)] (rendered123 p1 p2 p3))))
     [2, 3, 4] = [Some (2, q2), Some (3, q3), Some (4, q4)]"
    by (simp add: rendered123_def reconcile_def new_loop_def id_key_def the_loop_def
        computeKey_def evaluate_def createItemContext_def planOperations_def applyOperations_def
        plan_toRemove_def plan_toUpdate_def plan_toAdd_def map_has_def apply_remove_def
        apply_update_def apply_add_def insertBefore_def Let_def)
  ultimately show ?thesis by blast
qed

text \<open>
  Claim C8. \<open>ExpressionEvaluator.evaluate\<close> catches every error itself, warns, and
  returns \<open>undefined\<close>; so \<open>_computeKey\<close> never reaches its own \<open>catch\<close> block. For a key
  expression that throws on the item at index 2, the key is \<open>undefined\<close>, not 2; the
  warning is the evaluator's. Two such items in one list share the key \<open>undefined\<close>: of the
  items \<open>[null, {id: 1}, null]\<close> only two are rendered.
\<close>

theorem key_error_gives_undefined:
  "(\<forall>f c. \<exists>r. evaluate f (c :: 'd ctx) = Inr r) \<and>
   computeKey opt_id_key None (createItemContext None 2) = (Undefined, [EvalWarning]) \<and>
   fst (computeKey opt_id_key None (createItemContext None 2)) \<noteq> Num 2 \<and>
   instances (the_loop (reconcile [None, Some 1, None] (new_loop opt_id_key))) = [None, Some 2, Some 1] \<and>
   children (the_loop (reconcile [None, Some 1, None] (new_loop opt_id_key))) = [0, 2, 1]"
proof -
  have "\<forall>f c. \<exists>r. evaluate f (c :: 'd ctx) = Inr r"
    by (simp add: evaluate_def split: outcome.split)
  moreover have "computeKey opt_id_key None (createItemContext None 2) = (Undefined, [EvalWarning])"
    by code_simp
  moreover have "fst (computeKey opt_id_key None (createItemContext None 2)) \<noteq> Num 2"
    by code_simp
  moreover have "instances (the_loop (reconcile [None, Some 1, None] (new_loop opt_id_key)))
      = [None, Some 2, Some 1]" by code_simp
  moreover have "children (the_loop (reconcile [None, Some 1, None] (new_loop opt_id_key))) = [0, 2, 1]"
    by code_simp
  ultimately show ?thesis by blast
qed

section \<open>Every state the engine reaches is well formed\<close>

lemma wf_edges_ok: "wf_state s \<Longrightarrow> edges_ok s"
  by (simp add: wf_state_def)

lemma wf_distinct: "wf_state s \<Longrightarrow> distinct (pendingEffects s)"
  by (simp add: wf_state_def)

lemma wf_alloc_cb:
  assumes "wf_state s" and "EffCb k e \<in> set (subs s r)"
  shows "e < next_eff s"
proof (rule ccontr)
  assume "\<not> e < next_eff s"
  then have "cleanups (effs s e) = []" using assms(1) by (simp add: wf_state_def)
  moreover have "(r, EffCb k e) \<in> set (cleanups (effs s e))"
    using edges_okD1 [OF wf_edges_ok [OF assms(1)] assms(2)] .
  ultimately show False by simp
qed

lemma wf_quiet:
  assumes w: "wf_state s" and f: "frame0 s s'"
    and "\<And>r. subs s' r = subs s r"
    and "\<And>e. dependencies (effs s' e) = dependencies (effs s e)"
    and "\<And>e. cleanups (effs s' e) = cleanups (effs s e)"
    and "pendingEffects s' = pendingEffects s"
  shows "wf_state s'"
proof -
  have "edges_ok s' = edges_ok s" by (rule edges_ok_cong) (simp_all add: assms)
  moreover have "\<And>k. subscribers (comps s' k) = subscribers (comps s k)"
    using assms(3) [of "Comp k" for k] by simp
  ultimately show ?thesis using w f assms(4-6) by (simp add: wf_state_def frame0_def)
qed

lemma wf_fold_call_cb:
  assumes w: "wf_state s" and a: "\<And>k e. EffCb k e \<in> set cbs \<Longrightarrow> e < next_eff s"
  shows "wf_state (fold (call_cb nv ov) cbs s)"
proof -
  define s' where "s' = fold (call_cb nv ov) cbs s"
  have g: "same_graph s s'" unfolding s'_def by (rule same_graph_fold_call_cb)
  have "edges_ok s'" using same_graph_edges_ok [OF g] w by (simp add: wf_state_def)
  moreover have "distinct (pendingEffects s')" using w by (simp add: s'_def wf_state_def)
  moreover have "\<forall>e \<in> set (pendingEffects s'). e < next_eff s'"
    using w a g by (auto simp: s'_def fold_call_cb_pending wf_state_def cb_of_def same_graph_def)
  moreover have "\<And>k. subscribers (comps s' k) = subscribers (comps s k)"
    using g by (simp add: same_graph_def) (metis subs.simps(2))
  ultimately show ?thesis using w g unfolding s'_def [symmetric]
    by (simp add: wf_state_def same_graph_def)
qed

lemma wf_Signal_notify: "wf_state s \<Longrightarrow> wf_state (Signal_notify r nv ov s)"
  unfolding Signal_notify_def by (rule wf_fold_call_cb) (auto intro: wf_alloc_cb)

lemma wf_Signal_set: "wf_state s \<Longrightarrow> wf_state (Signal_set x v s)"
proof -
  assume w: "wf_state s"
  have "wf_state (s\<lparr>cells := (cells s)(x := (cells s x)\<lparr>sval := v\<rparr>)\<rparr>)"
    by (rule wf_quiet [OF w]) (simp_all add: frame0_def)
  then show ?thesis using w by (simp add: Signal_set_def Let_def wf_Signal_notify)
qed

lemma wf_Effect_track:
  assumes w: "wf_state s" and e: "e < next_eff s" and r: "\<And>k. r = Comp k \<Longrightarrow> k < next_comp s"
  shows "wf_state (Effect_track e r s)"
proof -
  have f: "frame0 s (Effect_track e r s)"
    using frame_Effect_track [of s e r] by (simp add: frame_def)
  have p: "pendingEffects (Effect_track e r s) = pendingEffects s"
    by (simp add: Effect_track_def Let_def Signal_subscribe_def)
  have ok: "edges_ok (Effect_track e r s)" by (rule edges_ok_Effect_track [OF wf_edges_ok [OF w]])
  have d: "dependencies (effs (Effect_track e r s) e') = [] \<and> cleanups (effs (Effect_track e r s) e') = []"
    if "next_eff s \<le> e'" for e'
    using that w e by (auto simp: effs_Effect_track wf_state_def)
  have c: "subscribers (comps (Effect_track e r s) k) = []" if "next_comp s \<le> k" for k
  proof -
    have "r \<noteq> Comp k" using r [of k] that by auto
    then have "set (subs (Effect_track e r s) (Comp k)) = set (subs s (Comp k))"
      using set_subs_Effect_track [of e r s "Comp k"] by (simp split: if_splits)
    then show ?thesis using w that by (simp add: wf_state_def)
  qed
  show ?thesis using w f p ok d c by (simp add: wf_state_def frame0_def)
qed

lemma wf_track_read:
  assumes w: "wf_state s" and r: "\<And>k. r = Comp k \<Longrightarrow> k < next_comp s"
  shows "wf_state (track_read r s)"
proof (cases "current s")
  case None
  have "wf_state (s\<lparr>reads := reads s @ [r]\<rparr>)"
    by (rule wf_quiet [OF w]) (simp_all add: frame0_def)
  then show ?thesis using None by (simp add: track_read_def)
next
  case (Some e)
  define s1 where "s1 = s\<lparr>reads := reads s @ [r],
     effs := (effs s)(e := (effs s e)\<lparr>last_reads := last_reads (effs s e) @ [r]\<rparr>)\<rparr>"
  have w1: "wf_state s1" unfolding s1_def by (rule wf_quiet [OF w]) (simp_all add: frame0_def)
  have "e < next_eff s1" using w Some by (simp add: wf_state_def s1_def)
  moreover have "\<And>k. r = Comp k \<Longrightarrow> k < next_comp s1" using r by (simp add: s1_def)
  ultimately have "wf_state (Effect_track e r s1)" by (rule wf_Effect_track [OF w1])
  then show ?thesis using Some by (simp add: track_read_def s1_def)
qed

lemma wf_Signal_get: "wf_state s \<Longrightarrow> wf_state (snd (Signal_get x s))"
  using wf_track_read [of s "Cell x"] by (simp add: Signal_get_def Let_def)

lemma wf_eval_expr: "wf_state s \<Longrightarrow> wf_state (snd (eval_expr g s))"
proof (induction g arbitrary: s)
  case (Cond c a b)
  obtain w s1 where g: "eval_expr c s = (w, s1)" by (cases "eval_expr c s")
  have "wf_state s1" using Cond.IH(1) [OF Cond.prems] g by simp
  with Cond.IH(2,3) [of s1] g show ?case by simp
next
  case (Get x)
  then show ?case using wf_Signal_get [of s x] by simp
qed simp

lemma wf_compute_and_notify: "wf_state s \<Longrightarrow> wf_state (compute_and_notify k s)"
proof -
  assume w: "wf_state s"
  obtain nv s1 where ev: "eval_expr (getter (comps s k)) s = (nv, s1)"
    by (cases "eval_expr (getter (comps s k)) s")
  have w1: "wf_state s1" using wf_eval_expr [OF w, of "getter (comps s k)"] ev by simp
  define s2 where "s2 = s1\<lparr>comps := (comps s1)(k := (comps s1 k)\<lparr>sval := nv\<rparr>)\<rparr>"
  have w2: "wf_state s2" unfolding s2_def by (rule wf_quiet [OF w1]) (simp_all add: frame0_def)
  have w3: "wf_state (Signal_notify (Comp k) nv (sval (comps s2 k)) s2)"
    by (rule wf_Signal_notify [OF w2])
  have w4: "wf_state (t\<lparr>comps := (comps t)(k := (comps t k)\<lparr>dirty := False\<rparr>)\<rparr>)" if "wf_state t" for t
    by (rule wf_quiet [OF that]) (simp_all add: frame0_def)
  show ?thesis
    unfolding compute_and_notify_def ev using w1 w3 w4
    by (simp add: Let_def s2_def)
qed

lemma wf_ComputedSignal_get:
  assumes w: "wf_state s" and k: "k < next_comp s"
  shows "wf_state (snd (ComputedSignal_get k s))"
proof -
  define s1 where "s1 = (if dirty (comps s k) then ComputedSignal_recompute k s else s)"
  have w1: "wf_state s1" using w by (simp add: s1_def ComputedSignal_recompute_def wf_compute_and_notify)
  have "frame s s1"
    by (simp add: s1_def ComputedSignal_recompute_def frame_compute_and_notify)
  then have "next_comp s1 = next_comp s" by (simp add: frame_def frame0_def)
  then have "wf_state (track_read (Comp k) s1)" using k by (intro wf_track_read [OF w1]) simp
  then show ?thesis unfolding ComputedSignal_get_def Let_def s1_def by simp
qed

lemma wf_drop:
  assumes w: "wf_state s"
  shows "wf_state (clear_dependencies e (Effect_cleanup e s))"
proof -
  define s' where "s' = clear_dependencies e (Effect_cleanup e s)"
  have ok: "edges_ok s'" unfolding s'_def by (rule edges_ok_drop [OF wf_edges_ok [OF w]])
  have f: "frame0 s s'"
    by (simp add: s'_def clear_dependencies_def Effect_cleanup_def Let_def frame0_def)
  have p: "pendingEffects s' = pendingEffects s"
    by (simp add: s'_def clear_dependencies_def Effect_cleanup_def Let_def)
  have d: "dependencies (effs s' e') = [] \<and> cleanups (effs s' e') = []" if "next_eff s \<le> e'" for e'
    using that w by (simp add: s'_def effs_drop wf_state_def)
  have c: "subscribers (comps s' k) = []" if "next_comp s \<le> k" for k
    using that w subs_drop [of e s "Comp k"] by (simp add: s'_def wf_state_def)
  show ?thesis unfolding s'_def [symmetric] using w f p ok d c by (simp add: wf_state_def frame0_def)
qed

lemma wf_flag:
  "wf_state s \<Longrightarrow> wf_state (s\<lparr>effs := (effs s)(e := (effs s e)\<lparr>active := b\<rparr>)\<rparr>)"
  "wf_state s \<Longrightarrow> wf_state (s\<lparr>effs := (effs s)(e := (effs s e)\<lparr>scheduled := b\<rparr>)\<rparr>)"
  "wf_state s \<Longrightarrow>
     wf_state (s\<lparr>effs := (effs s)(e := (effs s e)\<lparr>scheduled := b, last_reads := l\<rparr>)\<rparr>)"
  by (simp_all add: wf_state_def)

lemma wf_Effect_stop: "wf_state s \<Longrightarrow> wf_state (Effect_stop e s)"
  unfolding Effect_stop_def by (intro wf_drop wf_flag)

lemma wf_run_prepare: "wf_state s \<Longrightarrow> wf_state (run_prepare e s)"
  unfolding run_prepare_def by (intro wf_drop wf_flag)

lemma wf_exec_body: "wf_state s \<Longrightarrow> body_ok (next_comp s) b \<Longrightarrow> wf_state (exec_body b s)"
proof (induction b arbitrary: s)
  case Done
  then show ?case by simp
next
  case Throw
  show ?case using wf_quiet [OF Throw.prems(1), of "s\<lparr>caught := caught s + 1\<rparr>"]
    by (simp add: frame0_def)
next
  case (Read x b)
  have "next_comp (snd (Signal_get x s)) = next_comp s"
    using frame_Signal_get [of s x] by (simp add: frame_def frame0_def)
  with Read show ?case by (simp add: wf_Signal_get)
next
  case (ReadComp k b)
  have "next_comp (snd (ComputedSignal_get k s)) = next_comp s"
    using frame_ComputedSignal_get [of s k] by (simp add: frame_def frame0_def)
  with ReadComp show ?case by (simp add: wf_ComputedSignal_get)
next
  case (Write x v b)
  have "next_comp (Signal_set x v s) = next_comp s"
    using frame_Signal_set [of s x v] by (simp add: frame_def frame0_def)
  with Write show ?case by (simp add: wf_Signal_set)
next
  case (Stop e b)
  have "next_comp (Effect_stop e s) = next_comp s"
    using frame_Effect_stop [of s e] by (simp add: frame_def frame0_def)
  with Stop show ?case by (simp add: wf_Effect_stop)
next
  case (IfEq x v b1 b2)
  obtain w s1 where g: "Signal_get x s = (w, s1)" by (cases "Signal_get x s")
  have n: "next_comp s1 = next_comp s"
    using frame_Signal_get [of s x] g by (simp add: frame_def frame0_def)
  have "wf_state s1" using wf_Signal_get [OF IfEq.prems(1), of x] g by simp
  with IfEq n g show ?case by simp
qed

lemma wf_call_fn:
  assumes w: "wf_state s"
  shows "wf_state (call_fn e s)"
proof -
  define s1 where "s1 = s\<lparr>invoked := invoked s @ [e]\<rparr>"
  have w1: "wf_state s1" unfolding s1_def by (rule wf_quiet [OF w]) (simp_all add: frame0_def)
  have "fn_ok (next_comp s1) (fn (effs s1 e))" using w1 by (simp add: wf_state_def)
  then show ?thesis using w1
    by (cases "fn (effs s1 e)")
       (simp_all add: call_fn_def Let_def s1_def wf_exec_body wf_compute_and_notify)
qed

lemma wf_EffectTracker_track:
  assumes w: "wf_state s" and e: "e < next_eff s"
  shows "wf_state (EffectTracker_track e s)"
proof -
  define s1 where "s1 = s\<lparr>stack := stack s @ [current s], current := Some e\<rparr>"
  have ok1: "edges_ok s1 = edges_ok s" unfolding s1_def by (rule edges_ok_cong) simp_all
  have w1: "wf_state s1" using w e ok1 by (simp add: wf_state_def) (simp add: s1_def)
  define s2 where "s2 = call_fn e s1"
  have w2: "wf_state s2" unfolding s2_def by (rule wf_call_fn [OF w1])
  have f: "frame (s1\<lparr>invoked := invoked s1 @ [e]\<rparr>) s2" unfolding s2_def by (rule frame_call_fn)
  have n: "next_eff s2 = next_eff s" using f by (simp add: frame_def frame0_def s1_def)
  define s3 where "s3 = s2\<lparr>current := current s, stack := butlast (stack s2)\<rparr>"
  have ok3: "edges_ok s3 = edges_ok s2" unfolding s3_def by (rule edges_ok_cong) simp_all
  have "wf_state s3" using w2 w ok3 n by (simp add: wf_state_def) (simp add: s3_def)
  then show ?thesis by (simp add: EffectTracker_track_def Let_def s3_def s2_def s1_def)
qed

lemma wf_Effect_run:
  assumes "wf_state s" and "e < next_eff s"
  shows "wf_state (Effect_run e s)"
proof -
  have "next_eff (run_prepare e s) = next_eff s"
    by (simp add: run_prepare_def clear_dependencies_def Effect_cleanup_def Let_def)
  then have "wf_state (EffectTracker_track e (run_prepare e s))"
    using assms by (intro wf_EffectTracker_track wf_run_prepare) simp_all
  then show ?thesis using assms(1) by (simp add: Effect_run_def)
qed

lemma wf_flush_step: "wf_state s \<Longrightarrow> e < next_eff s \<Longrightarrow> wf_state (flush_step e s)"
proof -
  assume w: "wf_state s" and e: "e < next_eff s"
  have "wf_state (s\<lparr>comps := (comps s)(k := (comps s k)\<lparr>dirty := True\<rparr>)\<rparr>)" for k
    by (rule wf_quiet [OF w]) (simp_all add: frame0_def)
  then show ?thesis using w e
    by (simp add: flush_step_def run_method_def wf_Effect_run split: option.split)
qed

lemma wf_fold_flush_step:
  "wf_state s \<Longrightarrow> \<forall>e \<in> set es. e < next_eff s \<Longrightarrow> wf_state (fold flush_step es s)"
proof (induction es arbitrary: s)
  case Nil
  then show ?case by simp
next
  case (Cons e es)
  have "next_eff (flush_step e s) = next_eff s"
    using frame0_flush_step [of s e] by (simp add: frame0_def)
  with Cons show ?case by (simp add: wf_flush_step)
qed

lemma wf_sched_flags:
  "wf_state s \<Longrightarrow> wf_state (s\<lparr>isScheduled := b\<rparr>)"
  "wf_state s \<Longrightarrow> wf_state (s\<lparr>isFlushing := b\<rparr>)"
  "wf_state s \<Longrightarrow> wf_state (s\<lparr>frames := n\<rparr>)"
  "wf_state s \<Longrightarrow> wf_state (s\<lparr>pendingEffects := []\<rparr>)"
  by (simp_all add: wf_state_def edges_ok_def)

lemma wf_flush: "wf_state s \<Longrightarrow> wf_state (flush s)"
proof -
  assume w: "wf_state s"
  define s2 where "s2 = s\<lparr>isFlushing := True, isScheduled := False, pendingEffects := []\<rparr>"
  have w2: "wf_state s2" unfolding s2_def using w by (intro wf_sched_flags)
  have "\<forall>e \<in> set (pendingEffects s). e < next_eff s2" using w by (simp add: wf_state_def s2_def)
  then have "wf_state (fold flush_step (pendingEffects s) s2)" by (rule wf_fold_flush_step [OF w2])
  then show ?thesis using w
    by (simp add: flush_def Let_def s2_def wf_sched_flags)
qed

lemma wf_Effect_new:
  assumes w: "wf_state s" and f: "fn_ok (next_comp s) f"
  shows "wf_state (snd (Effect_new f s))"
proof -
  define e where "e = next_eff s"
  define s1 where "s1 = s\<lparr>effs := (effs s)(e := new_effect f), next_eff := e + 1\<rparr>"
  have em: "dependencies (effs s e) = []" "cleanups (effs s e) = []"
    using w by (simp_all add: wf_state_def e_def)
  have ok1: "edges_ok s1 = edges_ok s"
    unfolding s1_def by (rule edges_ok_cong) (simp_all add: em new_effect_def)
  have sb: "\<And>k. subscribers (comps s1 k) = subscribers (comps s k)" by (simp add: s1_def)
  have w1: "wf_state s1"
    using w f ok1 unfolding wf_state_def sb
    by (auto simp: s1_def e_def new_effect_def less_Suc_eq)
  have "wf_state (Effect_run e s1)" by (rule wf_Effect_run [OF w1]) (simp add: s1_def)
  then show ?thesis by (simp add: Effect_new_def Let_def s1_def e_def)
qed

lemma wf_ComputedSignal_new:
  assumes w: "wf_state s"
  shows "wf_state (snd (ComputedSignal_new g s))"
proof -
  define k where "k = next_comp s"
  define s1 where "s1 = s\<lparr>comps := (comps s)(k := \<lparr>sval = Undefined, subscribers = [], getter = g,
                    ceffect = None, dirty = True\<rparr>), next_comp := k + 1\<rparr>"
  have e0: "subscribers (comps s k) = []" using w by (simp add: wf_state_def k_def)
  have sb: "subs s1 r = subs s r" for r by (cases r) (simp_all add: s1_def e0)
  have ok1: "edges_ok s1 = edges_ok s" by (rule edges_ok_cong) (simp_all add: sb, simp_all add: s1_def)
  have mono: "fn_ok (Suc n) h" if "fn_ok n h" for n h
  proof -
    have "body_ok n b \<Longrightarrow> body_ok (Suc n) b" for b by (induction b) auto
    then show ?thesis using that by (cases h) simp_all
  qed
  have w1: "wf_state s1"
    using w ok1 mono unfolding wf_state_def
    by (auto simp: s1_def k_def)
  obtain e s2 where en: "Effect_new (ComputedFn k) s1 = (e, s2)"
    by (cases "Effect_new (ComputedFn k) s1")
  have w2: "wf_state s2" using wf_Effect_new [OF w1, of "ComputedFn k"] en by simp
  define s3 where "s3 = s2\<lparr>comps := (comps s2)(k := (comps s2 k)\<lparr>ceffect := Some e\<rparr>)\<rparr>"
  have w3: "wf_state s3" unfolding s3_def by (rule wf_quiet [OF w2]) (simp_all add: frame0_def, case_tac r, simp_all)
  have "edges_ok (s3\<lparr>effs := (effs s3)(e := (effs s3 e)\<lparr>run_overridden := Some k\<rparr>)\<rparr>) = edges_ok s3"
    by (rule edges_ok_cong) simp_all
  then have w4: "wf_state (s3\<lparr>effs := (effs s3)(e := (effs s3 e)\<lparr>run_overridden := Some k\<rparr>)\<rparr>)"
    using w3 by (simp add: wf_state_def)
  have eq: "snd (ComputedSignal_new g s) =
      s3\<lparr>effs := (effs s3)(e := (effs s3 e)\<lparr>run_overridden := Some k\<rparr>)\<rparr>"
    unfolding ComputedSignal_new_def Let_def k_def [symmetric] s1_def [symmetric] en
    by (simp add: s3_def)
  show ?thesis unfolding eq by (rule w4)
qed

lemma wf_apply_op:
  assumes w: "wf_state s" and a: "op_ok s a"
  shows "wf_state (apply_op a s)"
proof (cases a)
  case OpFrame
  have "wf_state (s\<lparr>frames := frames s - 1\<rparr>)" using w by (rule wf_sched_flags)
  then show ?thesis using OpFrame w by (simp add: wf_flush)
qed (use w a in \<open>simp_all add: wf_Signal_set wf_flush wf_Effect_stop wf_Effect_new
       wf_ComputedSignal_new wf_ComputedSignal_get\<close>)

lemma wf_init: "wf_state init"
  using edges_ok_init by (simp add: wf_state_def) (simp add: init_def new_effect_def)

lemma wf_apply_ops: "wf_state s \<Longrightarrow> ops_ok ops s \<Longrightarrow> wf_state (fold apply_op ops s)"
  by (induction ops arbitrary: s) (simp_all add: wf_apply_op)

text \<open>
  Every state that a caller reaches from the initial one is well formed; in particular
  the hypotheses \<open>edges_ok\<close> and \<open>distinct (pendingEffects s)\<close> of the theorems above hold
  in it.
\<close>

lemma reachable_wf:
  assumes "ops_ok ops init"
  shows "edges_ok (fold apply_op ops init) \<and> distinct (pendingEffects (fold apply_op ops init)) \<and>
         current (fold apply_op ops init) = None"
proof -
  have w: "wf_state (fold apply_op ops init)" by (rule wf_apply_ops [OF wf_init assms])
  have "current (apply_op a s) = current s" for a s
  proof (cases a)
    case (OpWrite x v)
    then show ?thesis using frame_Signal_set [of s x v] by (simp add: frame_def frame0_def)
  next
    case OpFlushSync
    then show ?thesis using frame0_flush [of s] by (simp add: frame0_def)
  next
    case OpFrame
    then show ?thesis using frame0_flush [of "s\<lparr>frames := frames s - 1\<rparr>"] by (simp add: frame0_def)
  next
    case (OpStop e)
    then show ?thesis using frame_Effect_stop [of s e] by (simp add: frame_def frame0_def)
  next
    case (OpNewEffect b)
    then show ?thesis
      using frame0_Effect_run [of "s\<lparr>effs := (effs s)(next_eff s := new_effect (Body b)),
              next_eff := next_eff s + 1\<rparr>" "next_eff s"]
      by (simp add: Effect_new_def Let_def frame0_def)
  next
    case (OpNewComputed g)
    define s1 where "s1 = s\<lparr>comps := (comps s)(next_comp s := \<lparr>sval = Undefined, subscribers = [],
         getter = g, ceffect = None, dirty = True\<rparr>), next_comp := next_comp s + 1\<rparr>"
    obtain e s2 where en: "Effect_new (ComputedFn (next_comp s)) s1 = (e, s2)"
      by (cases "Effect_new (ComputedFn (next_comp s)) s1")
    have "current s2 = current s"
      using frame0_Effect_run [of "s1\<lparr>effs := (effs s1)(next_eff s1 := new_effect (ComputedFn (next_comp s))),
              next_eff := next_eff s1 + 1\<rparr>" "next_eff s1"] en
      by (simp add: Effect_new_def Let_def frame0_def) (auto simp: s1_def)
    then show ?thesis using OpNewComputed en unfolding s1_def
      by (simp add: ComputedSignal_new_def Let_def)
  next
    case (OpReadComputed k)
    then show ?thesis using frame_ComputedSignal_get [of s k] by (simp add: frame_def frame0_def)
  qed
  then have "current (fold apply_op ops s) = current s" for s
    by (induction ops arbitrary: s) simp_all
  then have "current (fold apply_op ops init) = None" by (simp add: init_def)
  with w show ?thesis by (simp add: wf_state_def)
qed

end
